theory Spec2Isabelle
  imports Main "HOL-Library.Sublist"
begin

section \<open>Undo manager (src/src/undoManager.js)\<close>

text \<open>
  An undo state is the pair built by \<open>createState\<close>: the editor's serialized data
  (\<open>editor.getData(true, true)\<close>) and the saved selection
  (\<open>SelectionPersistence.saveSelection\<close>, \<open>null\<close> when there is no range; the saved
  offsets \<open>start\<close>, \<open>end\<close> are all the manager ever compares or stores).
\<close>

record undo_state =
  data :: string
  selection :: "(nat \<times> nat) option"

text \<open>
  What the handlers read from the live editor when they run: the raw markup
  (\<open>getRawData\<close>), the serialized data and selection that \<open>createState\<close> would capture,
  and the clock (milliseconds) that drives lodash's \<open>debounce\<close>.
\<close>

record editor_env =
  rawData :: string
  docData :: string
  docSelection :: "(nat \<times> nat) option"
  now :: nat

text \<open>
  The manager's fields. \<open>currState = None\<close> is the JavaScript \<open>null\<close>; \<open>push\<close> appends
  at the end of a stack and \<open>pop\<close> takes from the end. \<open>timer\<close> is the pending call of
  \<open>saverDebounced\<close>: \<open>Some d\<close> when a capture is scheduled to fire at time \<open>d\<close>.
\<close>

record manager =
  currState :: "undo_state option"
  undoStates :: "undo_state list"
  redoStates :: "undo_state list"
  isRestoring :: bool
  isTorndown :: bool
  timer :: "nat option"

text \<open>
  The part of the editor that its own \<open>onChange\<close> (kept by the manager as
  \<open>defaultOnChange\<close>) reads and writes: \<open>previousRawData\<close> (\<open>None\<close> is \<open>undefined\<close>),
  and the number of times the host's \<open>config.onChange\<close> and \<open>runPlaceholder\<close> ran.
\<close>

record editor =
  previousRawData :: "string option"
  hostOnChangeCalls :: nat
  placeholderRuns :: nat

definition TIME_BETWEEN_CHANGES :: nat where
  "TIME_BETWEEN_CHANGES = 500"

definition new_manager :: manager where
  "new_manager = \<lparr> currState = None, undoStates = [], redoStates = [],
     isRestoring = False, isTorndown = False, timer = None \<rparr>"

definition createState :: "editor_env \<Rightarrow> undo_state" where
  "createState env = \<lparr> data = docData env, selection = docSelection env \<rparr>"

definition saveState :: "manager \<Rightarrow> editor_env \<Rightarrow> manager" where
  "saveState m env =
     (let newState = createState env in
      case currState m of
        None \<Rightarrow> m\<lparr> currState := Some newState \<rparr>
      | Some c \<Rightarrow>
          if data newState \<noteq> data c
          then m\<lparr> undoStates := undoStates m @ [c], currState := Some newState \<rparr>
          else m)"

text \<open>\<open>saverDebounced()\<close>: (re)arms the timer; nothing is captured now.\<close>

definition saverDebounced :: "manager \<Rightarrow> editor_env \<Rightarrow> manager" where
  "saverDebounced m env = m\<lparr> timer := Some (now env + TIME_BETWEEN_CHANGES) \<rparr>"

text \<open>The debounced function's body, run when the timer expires.\<close>

definition debounceFire :: "manager \<Rightarrow> editor_env \<Rightarrow> manager" where
  "debounceFire m env =
     (case timer m of
        None \<Rightarrow> m
      | Some d \<Rightarrow>
          if d \<le> now env
          then (let m1 = m\<lparr> timer := None \<rparr> in
                if \<not> isTorndown m1 then saveState m1 env else m1)
          else m)"

text \<open>The rich text editor's own \<open>onChange\<close> (richTextEditor.js, constructor).\<close>

definition defaultOnChange :: "editor \<Rightarrow> editor_env \<Rightarrow> editor" where
  "defaultOnChange e env =
     (if previousRawData e \<noteq> Some (rawData env)
      then e\<lparr> placeholderRuns := placeholderRuns e + 1,
              hostOnChangeCalls := hostOnChangeCalls e + 1,
              previousRawData := Some (rawData env) \<rparr>
      else e)"

text \<open>
  The function the manager installs as \<open>editor.onChange\<close>. \<open>ty\<close> is the argument
  \<open>type\<close>: \<open>Some s\<close> for the string \<open>s\<close>, \<open>None\<close> for \<open>undefined\<close> or any non-string.
\<close>

definition onChange :: "manager \<times> editor \<Rightarrow> string option \<Rightarrow> editor_env \<Rightarrow> manager \<times> editor" where
  "onChange me ty env =
     (let m = fst me; e = snd me in
      if \<not> isRestoring m then
        if ty = Some ''updateAsyncImage'' then (m, e)
        else if currState m = None
             then (saveState m env, defaultOnChange e env)
             else (saverDebounced m env, defaultOnChange e env)
      else (m\<lparr> isRestoring := False \<rparr>, defaultOnChange e env))"

text \<open>A run of the manager: change notifications and timer expiries, in order.\<close>

datatype event = Notify "string option" editor_env | Fire editor_env

fun step :: "manager \<times> editor \<Rightarrow> event \<Rightarrow> manager \<times> editor" where
  "step me (Notify ty env) = onChange me ty env"
| "step me (Fire env) = (debounceFire (fst me) env, snd me)"

definition run :: "manager \<times> editor \<Rightarrow> event list \<Rightarrow> manager \<times> editor" where
  "run me evs = foldl step me evs"


text \<open>An editor on which nothing has been reported yet, and a sample environment.\<close>

definition new_editor :: editor where
  "new_editor = \<lparr> previousRawData = None, hostOnChangeCalls = 0, placeholderRuns = 0 \<rparr>"

definition env_a :: editor_env where
  "env_a = \<lparr> rawData = ''<p>a</p>'', docData = ''<p>a</p>'', docSelection = Some (1, 1), now = 0 \<rparr>"

definition env_b :: editor_env where
  "env_b = \<lparr> rawData = ''<p>ab</p>'', docData = ''<p>ab</p>'', docSelection = Some (2, 2), now = 700 \<rparr>"

text \<open>A manager that holds the checkpoint of \<open>env_a\<close> and an armed timer.\<close>

definition manager_a :: manager where
  "manager_a = new_manager\<lparr> currState := Some (createState env_a), timer := Some 500 \<rparr>"

text \<open>
  Events that a manager without a checkpoint lets pass untouched: notifications of type
  \<open>'updateAsyncImage'\<close> and expiries of a timer that was never armed.
\<close>

fun quiet :: "event \<Rightarrow> bool" where
  "quiet (Notify ty env) = (ty = Some ''updateAsyncImage'')"
| "quiet (Fire env) = True"

text \<open>
  The serialized contents the manager holds, oldest first: the undo stack, then the
  checkpoint.
\<close>

definition chain :: "manager \<Rightarrow> string list" where
  "chain m = map data (undoStates m @ (case currState m of None \<Rightarrow> [] | Some c \<Rightarrow> [c]))"

fun adjacent_differ :: "string list \<Rightarrow> bool" where
  "adjacent_differ (x # y # zs) = (x \<noteq> y \<and> adjacent_differ (y # zs))"
| "adjacent_differ _ = True"

section \<open>Async image insertion (src/src/richTextEditor.js, insertAsyncImage)\<close>

text \<open>
  The arguments \<open>source\<close> and \<open>file\<close> are untyped in the source, so they are JavaScript
  values here: \<open>JFile\<close> stands for a \<open>File\<close>/\<open>Blob\<close> object (with the data URL a
  \<open>FileReader\<close> would produce). \<open>truthy\<close> is JavaScript's conversion to boolean, as used
  by \<open>!source && file\<close>.
\<close>

datatype jsval = Undefined | Null | JBool bool | JNum int | JStr string | JFile string

fun truthy :: "jsval \<Rightarrow> bool" where
  "truthy Undefined = False"
| "truthy Null = False"
| "truthy (JBool b) = b"
| "truthy (JNum n) = (n \<noteq> 0)"
| "truthy (JStr s) = (s \<noteq> [])"
| "truthy (JFile d) = True"

text \<open>\<open>typeof source === 'string'\<close>.\<close>

fun is_string :: "jsval \<Rightarrow> bool" where
  "is_string (JStr s) = True"
| "is_string _ = False"

fun is_file :: "jsval \<Rightarrow> bool" where
  "is_file (JFile d) = True"
| "is_file _ = False"

text \<open>A media tracker entry (\<open>imageFile\<close> is its field \<open>file\<close>).\<close>

record tracker_entry =
  originalSource :: string
  imageFile :: jsval
  updatedSource :: "string option"

text \<open>
  The editor, as \<open>insertAsyncImage\<close> sees it. The document is a type parameter: it is
  only ever changed by \<open>insertMedia\<close>, which is passed in as the function \<open>ins\<close> (with
  \<open>insertNode\<close>, \<open>insertDirection\<close> and \<open>skipSelectionUpdate\<close> already fixed in it).
  The callbacks of the configuration are recorded by what they were called with.
\<close>

record 'doc img_editor =
  document :: 'doc
  mediaTracker :: "(nat \<times> tracker_entry) list"
  idCounter :: nat
  asyncImageFailedCalls :: nat
  asyncImageAddedCalls :: "(nat \<times> string) list"
  pendingImageLoads :: "(nat \<times> string) list"
  pendingFileReads :: "jsval list"
  changeNotifications :: nat

text \<open>
  The browser: \<open>createObjectURL\<close> when the platform has it, and whether a new
  \<open>img\<close> with a given source is already \<open>complete\<close>.
\<close>

record browser =
  createObjectURL :: "(string \<Rightarrow> string) option"
  imgComplete :: "string \<Rightarrow> bool"

text \<open>\<open>src.lastIndexOf('data:', 0) === 0\<close>: the string starts with \<open>data:\<close>.\<close>

definition starts_with :: "string \<Rightarrow> string \<Rightarrow> bool" where
  "starts_with p s = (take (length p) s = p)"

definition addImageBySource ::
    "browser \<Rightarrow> (string \<Rightarrow> nat \<Rightarrow> 'doc \<Rightarrow> 'doc) \<Rightarrow> jsval \<Rightarrow> 'doc img_editor \<Rightarrow> string
      \<Rightarrow> 'doc img_editor" where
  "addImageBySource br ins fl ed src =
     (let key = idCounter ed + 1;
          orig = (if starts_with ''data:'' src then ''file'' else src);
          ed1 = ed\<lparr> idCounter := key,
                    mediaTracker := mediaTracker ed @
                      [(key, \<lparr> originalSource = orig, imageFile = fl, updatedSource = None \<rparr>)] \<rparr>;
          ed2 = ed1\<lparr> document := ins src key (document ed1) \<rparr>;
          ed3 = (if imgComplete br src
                 then ed2\<lparr> asyncImageAddedCalls := asyncImageAddedCalls ed2 @ [(key, src)] \<rparr>
                 else ed2\<lparr> pendingImageLoads := pendingImageLoads ed2 @ [(key, src)] \<rparr>)
      in ed3\<lparr> changeNotifications := changeNotifications ed3 + 1 \<rparr>)"

text \<open>
  \<open>insertAsyncImage\<close>. \<open>Inl\<close> is a thrown exception: \<open>createObjectURL\<close> and
  \<open>readAsDataURL\<close> raise a \<open>TypeError\<close> on a truthy \<open>file\<close> that is no \<open>File\<close>.
  Without \<open>createObjectURL\<close> the file is handed to a \<open>FileReader\<close> and the image is
  added when it has loaded.
\<close>

definition insertAsyncImage ::
    "browser \<Rightarrow> (string \<Rightarrow> nat \<Rightarrow> 'doc \<Rightarrow> 'doc) \<Rightarrow> 'doc img_editor \<Rightarrow> jsval \<Rightarrow> jsval
      \<Rightarrow> string + 'doc img_editor" where
  "insertAsyncImage br ins ed source fl =
     (if \<not> truthy source \<and> truthy fl then
        (case fl of
           JFile d \<Rightarrow>
             (case createObjectURL br of
                Some url \<Rightarrow> Inr (addImageBySource br ins fl ed (url d))
              | None \<Rightarrow> Inr (ed\<lparr> pendingFileReads := pendingFileReads ed @ [fl] \<rparr>))
         | _ \<Rightarrow> Inl ''TypeError'')
      else
        (case source of
           JStr s \<Rightarrow> Inr (addImageBySource br ins fl ed s)
         | _ \<Rightarrow> Inr (ed\<lparr> asyncImageFailedCalls := asyncImageFailedCalls ed + 1 \<rparr>)))"




section \<open>Sanitizer (src/src/sanitize.js)\<close>

subsection \<open>DOM nodes\<close>

text \<open>
  A DOM node by its \<open>nodeType\<close>: element (1) with \<open>nodeName\<close>, attributes (name and
  value, in order) and child nodes; text (3); entity reference (5); comment (8); any
  other type, by its number.
\<close>

datatype node =
    Element string "(string \<times> string) list" "node list"
  | Text string
  | EntityRef string
  | Comment string
  | OtherNode nat

fun nodeName :: "node \<Rightarrow> string" where
  "nodeName (Element n as ks) = n"
| "nodeName (Text s) = ''#text''"
| "nodeName (EntityRef s) = s"
| "nodeName (Comment s) = ''#comment''"
| "nodeName (OtherNode k) = ''#node''"

fun childNodes :: "node \<Rightarrow> node list" where
  "childNodes (Element n as ks) = ks"
| "childNodes x = []"

text \<open>\<open>elem.attributes\<close>: \<open>undefined\<close> (\<open>None\<close>) on a node that is no element.\<close>

fun node_attributes :: "node \<Rightarrow> (string \<times> string) list option" where
  "node_attributes (Element n as ks) = Some as"
| "node_attributes x = None"

text \<open>\<open>String.prototype.toLowerCase\<close> on the ASCII letters.\<close>

definition to_lower_char :: "char \<Rightarrow> char" where
  "to_lower_char c =
     (case map_of (zip ''ABCDEFGHIJKLMNOPQRSTUVWXYZ'' ''abcdefghijklmnopqrstuvwxyz'') c of
        Some l \<Rightarrow> l
      | None \<Rightarrow> c)"

definition toLowerCase :: "string \<Rightarrow> string" where
  "toLowerCase s = map to_lower_char s"

text \<open>
  \<open>Node.normalize()\<close>: in the whole subtree, empty text nodes are removed and adjacent
  text nodes are joined. \<open>merge_text\<close> does this for one list of siblings,
  \<open>normalize_list\<close> for the children of the node \<open>normalize()\<close> is called on.
\<close>

fun merge_text :: "node list \<Rightarrow> node list" where
  "merge_text [] = []"
| "merge_text (Text s # rest) =
     (if s = [] then merge_text rest
      else (case merge_text rest of
              Text t # r \<Rightarrow> Text (s @ t) # r
            | r \<Rightarrow> Text s # r))"
| "merge_text (x # rest) = x # merge_text rest"

fun normalize_node :: "node \<Rightarrow> node" where
  "normalize_node (Element n as ks) = Element n as (merge_text (map normalize_node ks))"
| "normalize_node x = x"

definition normalize_list :: "node list \<Rightarrow> node list" where
  "normalize_list ks = merge_text (map normalize_node ks)"

subsection \<open>Configuration\<close>

text \<open>
  An entry of an allowed-attributes array: a name, or an object \<open>{name, value}\<close> whose
  \<open>value\<close> is a regular expression, kept as the predicate "the string matches".
\<close>

datatype attr_rule = AName string | AObj string "string \<Rightarrow> bool"

fun rule_name :: "attr_rule \<Rightarrow> string" where
  "rule_name (AName n) = n"
| "rule_name (AObj n re) = n"

fun is_object :: "attr_rule \<Rightarrow> bool" where
  "is_object (AName n) = False"
| "is_object (AObj n re) = True"

text \<open>
  The property key an entry becomes in \<open>uniq_hash[...]\<close>: a string is its own key, every
  object is the key \<open>[object Object]\<close>.
\<close>

fun rule_key :: "attr_rule \<Rightarrow> string" where
  "rule_key (AName n) = n"
| "rule_key (AObj n re) = ''[object Object]''"

text \<open>
  What a transformer returns: \<open>null\<close>, an object with the optional fields
  \<open>whitelist_nodes\<close>, \<open>whitelist\<close>, \<open>attr_whitelist\<close> and \<open>node\<close>, or anything else.
  A transformer is a function of the node, its lower-case name and the current
  \<open>whitelist_nodes\<close>. Nodes are compared by value where the source compares references.
\<close>

record transform_result =
  tr_whitelist_nodes :: "node list option"
  tr_whitelist :: bool
  tr_attr_whitelist :: "attr_rule list option"
  tr_node :: "node option"

datatype transform_return = TNull | TObject transform_result | TOther

type_synonym transformer = "node \<Rightarrow> string \<Rightarrow> node list \<Rightarrow> transform_return"

text \<open>
  A \<open>Sanitize\<close> instance: the fields of \<open>this.config\<close>, \<open>this.transformers\<close> and
  \<open>this.whitelist_nodes\<close>. Objects used as dictionaries are maps over their own
  properties; \<open>this.allowed_elements[name]\<close> is membership in \<open>elements\<close>.
  \<open>this.current_element\<close> is not a field here: the functions below take and return the
  child list of the current element.
\<close>

record sanitize =
  elements :: "string list"
  attributes :: "string \<rightharpoonup> attr_rule list"
  allow_comments :: bool
  protocols :: "string \<rightharpoonup> (string \<rightharpoonup> string list)"
  classnames :: "string \<rightharpoonup> string list"
  add_attributes :: "string \<rightharpoonup> (string \<times> string) list"
  remove_element_contents :: "string list"
  remove_all_contents :: bool
  transformers :: "transformer list"
  whitelist_nodes :: "node list"

definition Sanitize_RELATIVE :: string where
  "Sanitize_RELATIVE = ''__RELATIVE__''"

definition Sanitize_ALL :: string where
  "Sanitize_ALL = ''__ALL__''"

definition allowed_elements :: "sanitize \<Rightarrow> string \<Rightarrow> bool" where
  "allowed_elements s name = (name \<in> set (elements s))"

text \<open>The option \<open>remove_contents\<close>: absent (falsy), an array, or another truthy value.\<close>

datatype remove_contents = RcAbsent | RcArray "string list" | RcOther

record options =
  opt_elements :: "string list option"
  opt_attributes :: "(string \<rightharpoonup> attr_rule list) option"
  opt_allow_comments :: bool
  opt_protocols :: "(string \<rightharpoonup> (string \<rightharpoonup> string list)) option"
  opt_classnames :: "(string \<rightharpoonup> string list) option"
  opt_add_attributes :: "(string \<rightharpoonup> (string \<times> string) list) option"
  opt_remove_contents :: remove_contents
  opt_transformers :: "transformer list option"

text \<open>The constructor \<open>Sanitize(options)\<close>.\<close>

definition Sanitize :: "options \<Rightarrow> sanitize" where
  "Sanitize opts =
     (let attrs = (case opt_attributes opts of Some a \<Rightarrow> a | None \<Rightarrow> Map.empty) in
      \<lparr> elements = (case opt_elements opts of Some e \<Rightarrow> e | None \<Rightarrow> []),
        attributes = (case attrs Sanitize_ALL of Some a \<Rightarrow> attrs | None \<Rightarrow> attrs(Sanitize_ALL \<mapsto> [])),
        allow_comments = opt_allow_comments opts,
        protocols = (case opt_protocols opts of Some p \<Rightarrow> p | None \<Rightarrow> Map.empty),
        classnames = (case opt_classnames opts of Some c \<Rightarrow> c | None \<Rightarrow> Map.empty),
        add_attributes = (case opt_add_attributes opts of Some a \<Rightarrow> a | None \<Rightarrow> Map.empty),
        remove_element_contents =
          (case opt_remove_contents opts of RcArray xs \<Rightarrow> xs | _ \<Rightarrow> []),
        remove_all_contents =
          (case opt_remove_contents opts of RcOther \<Rightarrow> True | _ \<Rightarrow> False),
        transformers = (case opt_transformers opts of Some t \<Rightarrow> t | None \<Rightarrow> []),
        whitelist_nodes = [] \<rparr>)"

subsection \<open>Helpers of \<open>clean_node\<close>\<close>

text \<open>
  How a call ends: with a value, with a thrown exception, or not within the given fuel
  (the loop over the allowed attributes need not end, and a transformer may hand back
  ever new nodes).
\<close>

datatype 'a outcome = Ok 'a | Threw string | OutOfFuel

definition array_index :: "'a \<Rightarrow> 'a list \<Rightarrow> bool" where
  "array_index needle haystack = (needle \<in> set haystack)"

definition uniq_add :: "attr_rule list \<times> string list \<Rightarrow> attr_rule \<Rightarrow> attr_rule list \<times> string list" where
  "uniq_add acc r =
     (if rule_key r \<in> set (snd acc) then acc else (fst acc @ [r], snd acc @ [rule_key r]))"

definition merge_into ::
    "attr_rule list \<times> string list \<Rightarrow> attr_rule list option \<Rightarrow> attr_rule list \<times> string list" where
  "merge_into acc arg = (case arg of None \<Rightarrow> acc | Some xs \<Rightarrow> foldl uniq_add acc xs)"

definition merge_arrays_uniq :: "attr_rule list option list \<Rightarrow> attr_rule list" where
  "merge_arrays_uniq args = fst (foldl merge_into ([], []) args)"

definition filter_array :: "string list \<Rightarrow> string list \<Rightarrow> string list" where
  "filter_array arr whitelist = filter (\<lambda>x. array_index x whitelist) arr"

text \<open>\<open>s.split(' ')\<close> and \<open>arr.join(' ')\<close>.\<close>

fun split_space :: "string \<Rightarrow> string list" where
  "split_space [] = [[]]"
| "split_space (c # cs) =
     (if c = CHR '' '' then [] # split_space cs
      else (case split_space cs of w # ws \<Rightarrow> (c # w) # ws | [] \<Rightarrow> [[c]]))"

fun join_space :: "string list \<Rightarrow> string" where
  "join_space [] = []"
| "join_space [w] = w"
| "join_space (w # ws) = w @ '' '' @ join_space ws"

text \<open>\<open>setAttributeNode\<close>: a new attribute goes last, an existing one is replaced.\<close>

fun setAttribute :: "(string \<times> string) list \<Rightarrow> string \<Rightarrow> string \<Rightarrow> (string \<times> string) list" where
  "setAttribute [] n v = [(n, v)]"
| "setAttribute ((m, w) # as) n v =
     (if m = n then (m, v) # as else (m, w) # setAttribute as n v)"

text \<open>
  \<open>_transform_element\<close>: every transformer is called on the node given; the results
  accumulate in \<open>output\<close> and in \<open>whitelist_nodes\<close>.
\<close>

record transform_output =
  attr_whitelist :: "attr_rule list"
  out_node :: node
  whitelist :: bool

definition push_new :: "node list \<Rightarrow> node \<Rightarrow> node list" where
  "push_new wl x = (if array_index x wl then wl else wl @ [x])"

fun transform_loop ::
    "transformer list \<Rightarrow> node \<Rightarrow> sanitize \<Rightarrow> transform_output
      \<Rightarrow> (sanitize \<times> transform_output) outcome" where
  "transform_loop [] nd s output = Ok (s, output)"
| "transform_loop (t # ts) nd s output =
     (case t nd (toLowerCase (nodeName nd)) (whitelist_nodes s) of
        TNull \<Rightarrow> transform_loop ts nd s output
      | TObject r \<Rightarrow>
          (let s1 = (case tr_whitelist_nodes r of
                       None \<Rightarrow> s
                     | Some ws \<Rightarrow> s\<lparr> whitelist_nodes := foldl push_new (whitelist_nodes s) ws \<rparr>);
               o1 = output\<lparr> whitelist := tr_whitelist r \<rparr>;
               o2 = (case tr_attr_whitelist r of
                       None \<Rightarrow> o1
                     | Some aw \<Rightarrow>
                         o1\<lparr> attr_whitelist :=
                              merge_arrays_uniq [Some (attr_whitelist o1), Some aw] \<rparr>);
               o3 = (case tr_node r of None \<Rightarrow> o2 | Some n' \<Rightarrow> o2\<lparr> out_node := n' \<rparr>)
           in transform_loop ts nd s1 o3)
      | TOther \<Rightarrow> Threw ''transformer output must be an object or null'')"

definition transform_element :: "sanitize \<Rightarrow> node \<Rightarrow> (sanitize \<times> transform_output) outcome" where
  "transform_element s nd =
     transform_loop (transformers s) nd s \<lparr> attr_whitelist = [], out_node = nd, whitelist = False \<rparr>"

subsection \<open>The attribute filter of \<open>_clean_element\<close>\<close>

text \<open>
  \<open>for (var i in protocols) { if (attr_value_lc.indexOf(protocols[i].toLowerCase()) === 0)
  { attr_ok = true; break; } }\<close>, from key \<open>k\<close> on. The result is \<open>attr_ok\<close> and the value
  the variable \<open>i\<close> is left with: the key of the match, or the last key when there is
  none. This \<open>i\<close> is the very variable that indexes the allowed attributes.
\<close>

fun protocol_scan :: "string \<Rightarrow> string list \<Rightarrow> nat \<Rightarrow> bool \<times> nat" where
  "protocol_scan v [] k = (False, k - 1)"
| "protocol_scan v (p # ps) k =
     (if starts_with (toLowerCase p) v then (True, k) else protocol_scan v ps (Suc k))"

text \<open>
  One pass through the body of \<open>for(i=0;i<allowed_attributes.length;i++)\<close> at index
  \<open>i\<close>, for the element named \<open>name\<close> with attributes \<open>eattrs\<close>; \<open>out\<close> are the
  attributes set on the new element so far. It returns the instance (its \<open>protocols\<close>
  array has \<open>Sanitize.RELATIVE\<close> pushed onto it whenever a protocol check runs), the new
  attributes, and the value of \<open>i\<close> at the end of the body. With an object entry the
  value test reads \<open>allowed_attributes[i].value\<close> at the \<open>i\<close> the scan left behind: out
  of range this is a \<open>TypeError\<close>, on a string entry \<open>value\<close> is \<open>undefined\<close> and
  everything matches.
\<close>

definition attr_step ::
    "sanitize \<Rightarrow> string \<Rightarrow> (string \<times> string) list \<Rightarrow> attr_rule list \<Rightarrow> nat
      \<Rightarrow> (string \<times> string) list \<Rightarrow> (sanitize \<times> (string \<times> string) list \<times> nat) outcome" where
  "attr_step s name eattrs allowed i out =
     (let rule = allowed ! i;
          isObject = is_object rule;
          attr_name = rule_name rule
      in case map_of eattrs attr_name of
           None \<Rightarrow> Ok (s, out, i)
         | Some attr_value \<Rightarrow>
             (let attr_value_lc = toLowerCase attr_value;
                  checked =
                    (case protocols s name of
                       None \<Rightarrow> (s, True, i)
                     | Some pm \<Rightarrow>
                         (case pm attr_name of
                            None \<Rightarrow> (s, True, i)
                          | Some ps \<Rightarrow>
                              (let ps' = ps @ [Sanitize_RELATIVE];
                                   found = protocol_scan attr_value_lc ps' 0
                               in (s\<lparr> protocols := (protocols s)(name \<mapsto> pm(attr_name \<mapsto> ps')) \<rparr>,
                                   fst found, snd found))));
                  s1 = fst checked;
                  ok1 = fst (snd checked);
                  i1 = snd (snd checked);
                  filtered =
                    (if attr_name = ''class'' \<and> classnames s name \<noteq> None
                     then join_space (filter_array (split_space attr_value) (the (classnames s name)))
                     else attr_value);
                  ok2 =
                    (if attr_name = ''class'' \<and> classnames s name \<noteq> None
                     then filtered \<noteq> [] else ok1)
              in if isObject then
                   (if i1 < length allowed then
                      (let ok3 = (case allowed ! i1 of AObj n re \<Rightarrow> re attr_value_lc | AName n \<Rightarrow> True)
                       in Ok (s1, if ok3 then setAttribute out attr_name filtered else out, i1))
                    else Threw ''TypeError'')
                 else Ok (s1, if ok2 then setAttribute out attr_name filtered else out, i1)))"

text \<open>The loop itself: after the body, \<open>i++\<close> and the test \<open>i < allowed_attributes.length\<close>.\<close>

fun attr_loop ::
    "nat \<Rightarrow> sanitize \<Rightarrow> string \<Rightarrow> (string \<times> string) list \<Rightarrow> attr_rule list \<Rightarrow> nat
      \<Rightarrow> (string \<times> string) list \<Rightarrow> (sanitize \<times> (string \<times> string) list) outcome" where
  "attr_loop 0 s name eattrs allowed i out =
     (if i < length allowed then OutOfFuel else Ok (s, out))"
| "attr_loop (Suc fuel) s name eattrs allowed i out =
     (if i < length allowed then
        (case attr_step s name eattrs allowed i out of
           Ok r \<Rightarrow> attr_loop fuel (fst r) name eattrs allowed (Suc (snd (snd r))) (fst (snd r))
         | Threw e \<Rightarrow> Threw e
         | OutOfFuel \<Rightarrow> OutOfFuel)
      else Ok (s, out))"

text \<open>
  The attributes of a surviving element with attributes \<open>eattrs\<close>: the allowed names
  are merged, \<open>class\<close> is pushed when class names are configured, the loop runs, and
  the configured \<open>add_attributes\<close> are set last.
\<close>

definition clean_attributes ::
    "nat \<Rightarrow> sanitize \<Rightarrow> string \<Rightarrow> (string \<times> string) list \<Rightarrow> attr_rule list
      \<Rightarrow> (sanitize \<times> (string \<times> string) list) outcome" where
  "clean_attributes fuel s name eattrs extra =
     (let merged = merge_arrays_uniq [attributes s name, attributes s Sanitize_ALL, Some extra];
          allowed = (case classnames s name of
                       None \<Rightarrow> merged
                     | Some cs \<Rightarrow> if cs = [] then merged else merged @ [AName ''class''])
      in case attr_loop fuel s name eattrs allowed 0 [] of
           Ok r \<Rightarrow>
             Ok (fst r,
                 (case add_attributes s name of
                    None \<Rightarrow> snd r
                  | Some adds \<Rightarrow> foldl (\<lambda>as kv. setAttribute as (fst kv) (snd kv)) (snd r) adds))
         | Threw e \<Rightarrow> Threw e
         | OutOfFuel \<Rightarrow> OutOfFuel)"

subsection \<open>\<open>_clean\<close>, \<open>_clean_element\<close> and \<open>clean_node\<close>\<close>

text \<open>
  \<open>clean fuel s acc nd\<close> is \<open>_clean.call(this, nd)\<close> with \<open>acc\<close> the children of
  \<open>this.current_element\<close> so far; it returns the instance and the children afterwards.
  An element that is allowed (or whitelisted by a transformer) becomes a new element
  that is appended, and its children are cleaned into it (\<open>createElement\<close> throws on
  the name of a node that is no element, which only a transformer can put there). A
  node in \<open>whitelist_nodes\<close> is cloned with all its attributes. Otherwise
  \<open>current_element\<close> stays the parent: the children are cleaned into the parent's own
  child list. Children are skipped when \<open>remove_all_contents\<close> is set or the name is
  in \<open>remove_element_contents\<close>. At the end \<open>current_element.normalize()\<close> runs. One
  unit of fuel is used per level of nesting.
\<close>

fun clean :: "nat \<Rightarrow> sanitize \<Rightarrow> node list \<Rightarrow> node \<Rightarrow> (sanitize \<times> node list) outcome"
  and clean_element :: "nat \<Rightarrow> sanitize \<Rightarrow> node list \<Rightarrow> node \<Rightarrow> (sanitize \<times> node list) outcome"
  and clean_children :: "nat \<Rightarrow> sanitize \<Rightarrow> node list \<Rightarrow> node list \<Rightarrow> (sanitize \<times> node list) outcome"
where
  "clean fuel s acc (Element n as ks) = clean_element fuel s acc (Element n as ks)"
| "clean fuel s acc (Text t) = Ok (s, acc @ [Text t])"
| "clean fuel s acc (EntityRef t) = Ok (s, acc @ [EntityRef t])"
| "clean fuel s acc (Comment t) = Ok (s, if allow_comments s then acc @ [Comment t] else acc)"
| "clean fuel s acc (OtherNode k) = Ok (s, acc)"
| "clean_element 0 s acc elem0 = OutOfFuel"
| "clean_element (Suc fuel) s acc elem0 =
     (case transform_element s elem0 of
        Threw e \<Rightarrow> Threw e
      | OutOfFuel \<Rightarrow> OutOfFuel
      | Ok tr \<Rightarrow>
          (let s0 = fst tr;
               elem = out_node (snd tr);
               name = toLowerCase (nodeName elem);
               keep_contents = (\<not> remove_all_contents s0 \<and> name \<notin> set (remove_element_contents s0))
           in if allowed_elements s0 name \<or> whitelist (snd tr) then
                (case node_attributes elem of
                   None \<Rightarrow> Threw ''InvalidCharacterError''
                 | Some eattrs \<Rightarrow>
                     (case clean_attributes (Suc fuel) s0 name eattrs (attr_whitelist (snd tr)) of
                        Threw e \<Rightarrow> Threw e
                      | OutOfFuel \<Rightarrow> OutOfFuel
                      | Ok ra \<Rightarrow>
                          (case (if keep_contents
                                 then clean_children fuel (fst ra) [] (childNodes elem)
                                 else Ok (fst ra, [])) of
                             Threw e \<Rightarrow> Threw e
                           | OutOfFuel \<Rightarrow> OutOfFuel
                           | Ok rc \<Rightarrow>
                               Ok (fst rc,
                                   acc @ [Element (nodeName elem) (snd ra)
                                            (normalize_list (snd rc))]))))
              else if array_index elem (whitelist_nodes s0) then
                (case (if keep_contents then clean_children fuel s0 [] (childNodes elem)
                       else Ok (s0, [])) of
                   Threw e \<Rightarrow> Threw e
                 | OutOfFuel \<Rightarrow> OutOfFuel
                 | Ok rc \<Rightarrow>
                     Ok (fst rc,
                         acc @ [case node_attributes elem of
                                  Some eattrs \<Rightarrow>
                                    Element (nodeName elem) eattrs (normalize_list (snd rc))
                                | None \<Rightarrow> elem]))
              else
                (case (if keep_contents then clean_children fuel s0 acc (childNodes elem)
                       else Ok (s0, acc)) of
                   Threw e \<Rightarrow> Threw e
                 | OutOfFuel \<Rightarrow> OutOfFuel
                 | Ok rc \<Rightarrow> Ok (fst rc, normalize_list (snd rc)))))"
| "clean_children fuel s acc [] = Ok (s, acc)"
| "clean_children fuel s acc (k # ks) =
     (case clean fuel s acc k of
        Threw e \<Rightarrow> Threw e
      | OutOfFuel \<Rightarrow> OutOfFuel
      | Ok r \<Rightarrow> clean_children fuel (fst r) (snd r) ks)"

text \<open>
  \<open>clean_node(container)\<close>: the children of the container are cleaned into a new
  fragment, which is normalized and returned; the instance is returned with it, since
  the call changes it.
\<close>

definition clean_node :: "nat \<Rightarrow> sanitize \<Rightarrow> node \<Rightarrow> (sanitize \<times> node list) outcome" where
  "clean_node fuel s container =
     (case clean_children fuel (s\<lparr> whitelist_nodes := [] \<rparr>) [] (childNodes container) of
        Threw e \<Rightarrow> Threw e
      | OutOfFuel \<Rightarrow> OutOfFuel
      | Ok r \<Rightarrow> Ok (fst r, normalize_list (snd r)))"

text \<open>
  The editor's default \<open>filterRules\<close> (richTextEditor.js), passed to \<open>Sanitize\<close> by
  \<open>DataFilter.filterHTML\<close>, and the instance made from them.
\<close>

definition default_filterRules :: options where
  "default_filterRules =
     \<lparr> opt_elements = Some [''a'', ''b'', ''i'', ''ul'', ''ol'', ''li'', ''p'', ''h2'', ''blockquote'',
          ''img'', ''iframe'', ''figure'', ''br'', ''hr'', ''pre'', ''sub'', ''sup'', ''small''],
       opt_attributes = Some
         [''a'' \<mapsto> [AName ''href'', AName ''title''],
          ''img'' \<mapsto> [AName ''src'', AName ''alt'', AName ''data-orig-width'', AName ''data-orig-height''],
          ''hr'' \<mapsto> [AName ''data-label''],
          ''iframe'' \<mapsto> [AName ''src'', AName ''width'', AName ''height'', AName ''frameborder''],
          ''figure'' \<mapsto> [AName ''data-orig-width'', AName ''data-orig-height'']],
       opt_allow_comments = False,
       opt_protocols = Some [''a'' \<mapsto> [''href'' \<mapsto> [''http'', ''https'', ''mailto'']]],
       opt_classnames = Some [''hr'' \<mapsto> [''read-more'']],
       opt_add_attributes = None,
       opt_remove_contents = RcArray [''style'', ''noscript'', ''script'', ''meta''],
       opt_transformers = None \<rparr>"

definition default_sanitize :: sanitize where
  "default_sanitize = Sanitize default_filterRules"

text \<open>The same rules with the protocols of \<open>a.href\<close> restricted to \<open>http\<close> and \<open>https\<close>.\<close>

definition http_only_sanitize :: sanitize where
  "http_only_sanitize =
     Sanitize (default_filterRules
       \<lparr> opt_protocols := Some [''a'' \<mapsto> [''href'' \<mapsto> [''http'', ''https'']]] \<rparr>)"

subsection \<open>Reading results\<close>

text \<open>The nodes of the returned fragment, and a protocols array of an instance.\<close>

fun result_nodes :: "(sanitize \<times> node list) outcome \<Rightarrow> node list outcome" where
  "result_nodes (Ok r) = Ok (snd r)"
| "result_nodes (Threw e) = Threw e"
| "result_nodes OutOfFuel = OutOfFuel"

definition protocols_of :: "sanitize \<Rightarrow> string \<Rightarrow> string \<Rightarrow> string list option" where
  "protocols_of s name attr = (case protocols s name of None \<Rightarrow> None | Some pm \<Rightarrow> pm attr)"

fun result_protocols ::
    "(sanitize \<times> node list) outcome \<Rightarrow> string \<Rightarrow> string \<Rightarrow> string list option" where
  "result_protocols (Ok r) name attr = protocols_of (fst r) name attr"
| "result_protocols (Threw e) name attr = None"
| "result_protocols OutOfFuel name attr = None"

text \<open>The names of all elements of a node and of a list of nodes, in document order.\<close>

fun element_names :: "node \<Rightarrow> string list"
  and forest_names :: "node list \<Rightarrow> string list" where
  "element_names (Element n as ks) = n # forest_names ks"
| "element_names (Text t) = []"
| "element_names (EntityRef t) = []"
| "element_names (Comment t) = []"
| "element_names (OtherNode k) = []"
| "forest_names [] = []"
| "forest_names (k # ks) = element_names k @ forest_names ks"

text \<open>Two instances that agree on every field but \<open>protocols\<close>.\<close>

definition same_rules :: "sanitize \<Rightarrow> sanitize \<Rightarrow> bool" where
  "same_rules s s' =
     (elements s' = elements s \<and> attributes s' = attributes s
      \<and> allow_comments s' = allow_comments s \<and> classnames s' = classnames s
      \<and> add_attributes s' = add_attributes s
      \<and> remove_element_contents s' = remove_element_contents s
      \<and> remove_all_contents s' = remove_all_contents s
      \<and> transformers s' = transformers s \<and> whitelist_nodes s' = whitelist_nodes s)"



text \<open>Sample documents (the \<open>body\<close> that \<open>nodeFromString\<close> returns).\<close>

definition body_javascript :: node where
  "body_javascript = Element ''BODY'' [] [Element ''A'' [(''href'', ''javascript:alert(1)'')] [Text ''x'']]"

definition body_relative :: node where
  "body_relative = Element ''BODY'' [] [Element ''A'' [(''href'', ''/relative'')] [Text ''x'']]"

definition body_http :: node where
  "body_http = Element ''BODY'' [] [Element ''A'' [(''href'', ''http://example.org/'')] [Text ''x'']]"




text \<open>
  Two calls of \<open>clean_node\<close> in a row: the configuration objects are shared by
  reference, so the second call starts from what the first one left.
\<close>

definition clean_node_twice :: "nat \<Rightarrow> sanitize \<Rightarrow> node \<Rightarrow> (sanitize \<times> node list) outcome" where
  "clean_node_twice fuel s container =
     (case clean_node fuel s container of
        Ok r \<Rightarrow> clean_node fuel (fst r) container
      | Threw e \<Rightarrow> Threw e
      | OutOfFuel \<Rightarrow> OutOfFuel)"

section \<open>Blockquote formatting (src/src/richTextEditor.js, applyCommand, doBlock)\<close>


definition MEDIA_ELEMENTS :: "string list" where
  "MEDIA_ELEMENTS = [''IMG'', ''IFRAME'', ''FIGURE'', ''HR'']"

definition to_upper_char :: "char \<Rightarrow> char" where
  "to_upper_char c =
     (case map_of (zip ''abcdefghijklmnopqrstuvwxyz'' ''ABCDEFGHIJKLMNOPQRSTUVWXYZ'') c of
        Some u \<Rightarrow> u
      | None \<Rightarrow> c)"

definition toUpperCase :: "string \<Rightarrow> string" where
  "toUpperCase s = map to_upper_char s"

text \<open>\<open>node instanceof HTMLElement\<close>.\<close>

fun isElement :: "node \<Rightarrow> bool" where
  "isElement (Element n as ks) = True"
| "isElement x = False"





text \<open>
  jQuery's \<open>$(stack).wrapAll(wrapper)\<close> on the children of the editor element. The
  children carry their original index (\<open>Some i\<close>); a wrapper made here carries \<open>None\<close>.
  On an empty set nothing happens. Otherwise a clone of the wrapper is inserted before
  the first node of the set and all nodes of the set are moved into it, in the order
  of the set.
\<close>

fun wrap_pass ::
    "nat list \<Rightarrow> node \<Rightarrow> (nat option \<times> node) list \<Rightarrow> (nat option \<times> node) list" where
  "wrap_pass ids w [] = []"
| "wrap_pass ids w (x # rest) =
     (if fst x = Some (hd ids) then (None, w) # filter (\<lambda>y. fst y \<notin> Some ` set ids) rest
      else if fst x \<in> Some ` set ids then wrap_pass ids w rest
      else x # wrap_pass ids w rest)"

definition wrapAll ::
    "string \<Rightarrow> (nat option \<times> node) list \<Rightarrow> (nat \<times> node) list \<Rightarrow> (nat option \<times> node) list" where
  "wrapAll type L stack =
     (if stack = [] then L
      else wrap_pass (map fst stack) (Element (toUpperCase type) [] (map snd stack)) L)"





text \<open>
  The wrappers made by the command and the original children left at the root, both
  in document order; and the media elements in a subtree.
\<close>

definition new_wrappers :: "(nat option \<times> node) list \<Rightarrow> node list" where
  "new_wrappers L = map snd (filter (\<lambda>x. fst x = None) L)"


fun media_nodes :: "node \<Rightarrow> string list"
  and media_nodes_list :: "node list \<Rightarrow> string list" where
  "media_nodes (Element n as ks) =
     (if toUpperCase n \<in> set MEDIA_ELEMENTS then [n] else []) @ media_nodes_list ks"
| "media_nodes (Text t) = []"
| "media_nodes (EntityRef t) = []"
| "media_nodes (Comment t) = []"
| "media_nodes (OtherNode k) = []"
| "media_nodes_list [] = []"
| "media_nodes_list (k # ks) = media_nodes k @ media_nodes_list ks"



text \<open>The label of an original child, and the indices held by a list of stacks.\<close>

definition lab :: "nat \<times> node \<Rightarrow> nat option \<times> node" where
  "lab x = (Some (fst x), snd x)"

definition stack_ids :: "(nat \<times> node) list list \<Rightarrow> nat list" where
  "stack_ids SS = concat (map (map fst) SS)"

section \<open>Block flattening (src/src/dataFilter.js)\<close>

definition blockElements :: "string list" where
  "blockElements = [''P'', ''FIGURE'', ''H2'', ''BLOCKQUOTE'', ''UL'', ''OL'', ''PRE'']"

definition mediaElements :: "string list" where
  "mediaElements = [''FIGURE'', ''IFRAME'', ''IMG'', ''HR'']"

definition mediaHolderElement :: string where
  "mediaHolderElement = ''DIV''"

definition separatorElement :: string where
  "separatorElement = ''HR''"

definition isBlock :: "node \<Rightarrow> bool" where
  "isBlock element = (nodeName element \<in> set blockElements)"

definition isMedia :: "node \<Rightarrow> bool" where
  "isMedia element = (nodeName element \<in> set mediaElements)"

text \<open>\<open>$(element).attr('contenteditable') === 'false'\<close>.\<close>

definition isContentEditableTurnedOff :: "node \<Rightarrow> bool" where
  "isContentEditableTurnedOff element =
     (case node_attributes element of
        None \<Rightarrow> False
      | Some as \<Rightarrow> map_of as ''contenteditable'' = Some ''false'')"

text \<open>
  \<open>$(root).find('*')\<close>: the elements below a node in document order. Each comes with
  its path, the child indices from the root down, which stands for the identity of
  the node.
\<close>

fun elems_node :: "nat list \<Rightarrow> node \<Rightarrow> (nat list \<times> node) list"
  and elems_list :: "nat list \<Rightarrow> nat \<Rightarrow> node list \<Rightarrow> (nat list \<times> node) list" where
  "elems_node p (Element n as ks) = (p, Element n as ks) # elems_list p 0 ks"
| "elems_node p (Text t) = []"
| "elems_node p (EntityRef t) = []"
| "elems_node p (Comment t) = []"
| "elems_node p (OtherNode k) = []"
| "elems_list p i [] = []"
| "elems_list p i (k # ks) = elems_node (p @ [i]) k @ elems_list p (Suc i) ks"

text \<open>\<open>$(element).text()\<close>: the text of all text nodes below, in document order.\<close>

fun text_of :: "node \<Rightarrow> string"
  and text_of_list :: "node list \<Rightarrow> string" where
  "text_of (Element n as ks) = text_of_list ks"
| "text_of (Text t) = t"
| "text_of (EntityRef t) = []"
| "text_of (Comment t) = []"
| "text_of (OtherNode k) = []"
| "text_of_list [] = []"
| "text_of_list (k # ks) = text_of k @ text_of_list ks"

text \<open>\<open>$(element).find(mediaElements.join()).length\<close>: a media element below the node.\<close>

definition hasMedia :: "node \<Rightarrow> bool" where
  "hasMedia element =
     (\<exists>x \<in> set (elems_list [] 0 (childNodes element)). toUpperCase (nodeName (snd x)) \<in> set mediaElements)"

text \<open>White space as \<open>String.prototype.trim\<close> removes it (ASCII).\<close>

definition is_space :: "char \<Rightarrow> bool" where
  "is_space c = (c \<in> set [CHR '' '', CHR 0x09, CHR 0x0A, CHR 0x0B, CHR 0x0C, CHR 0x0D])"

text \<open>
  \<open>isEmptyElement(element, trim)\<close>. With \<open>trim\<close>, line breaks are deleted and the
  text is trimmed, which leaves the empty string exactly when all of it is white space.
\<close>

definition isEmptyElement :: "node \<Rightarrow> bool \<Rightarrow> bool" where
  "isEmptyElement element trim =
     ((if trim then list_all is_space (text_of element) else text_of element = [])
      \<and> \<not> isMedia element \<and> \<not> hasMedia element \<and> nodeName element \<noteq> separatorElement)"

text \<open>
  \<open>wrapTextNodes\<close> on the children of the root: after \<open>normalize()\<close>, every text node
  that is a child of the root and is not all white space is wrapped in a new \<open>p\<close>.
\<close>

fun wrap_text :: "node \<Rightarrow> node" where
  "wrap_text (Text t) = (if \<not> list_all is_space t then Element ''P'' [] [Text t] else Text t)"
| "wrap_text x = x"

definition wrapTextNodes :: "node list \<Rightarrow> node list" where
  "wrapTextNodes kids = map wrap_text (normalize_list kids)"

text \<open>
  \<open>blockifyInlineNodes\<close>: then every element child of the root that is no block, no
  media, no media holder and no separator is wrapped in a new \<open>p\<close>.
\<close>

fun wrap_inline :: "node \<Rightarrow> node" where
  "wrap_inline (Element n as ks) =
     (if \<not> isBlock (Element n as ks) \<and> \<not> isMedia (Element n as ks)
         \<and> n \<noteq> mediaHolderElement \<and> n \<noteq> separatorElement
      then Element ''P'' [] [Element n as ks] else Element n as ks)"
| "wrap_inline x = x"

definition blockifyInlineNodes :: "node list \<Rightarrow> node list" where
  "blockifyInlineNodes kids = map wrap_inline (wrapTextNodes kids)"

definition getBlockNodes :: "node list \<Rightarrow> (nat list \<times> node) list" where
  "getBlockNodes kids =
     filter (\<lambda>x. isBlock (snd x) \<or> isContentEditableTurnedOff (snd x)) (elems_list [] 0 kids)"

text \<open>
  The loop of \<open>flattenBlocksDown\<close> runs on a tree that it changes itself. After
  \<open>$(rootNode).empty()\<close> every node still has its own children, and
  \<open>$(rootNode).append(block)\<close> takes \<open>block\<close>, with all that is below it at that
  moment, away from its parent and makes it the last child of the root. So at every
  moment the tree is the one that was collected before the loop, except that the
  nodes appended so far hang under the root: the state is the list \<open>moved\<close> of their
  paths, in the order of appending, and what is now below the node that was collected
  at path \<open>p\<close> as \<open>nd\<close> is \<open>prune_node moved p nd\<close>.
\<close>

fun prune_node :: "nat list list \<Rightarrow> nat list \<Rightarrow> node \<Rightarrow> node"
  and prune_list :: "nat list list \<Rightarrow> nat list \<Rightarrow> nat \<Rightarrow> node list \<Rightarrow> node list" where
  "prune_node moved p (Element n as ks) = Element n as (prune_list moved p 0 ks)"
| "prune_node moved p (Text t) = Text t"
| "prune_node moved p (EntityRef t) = EntityRef t"
| "prune_node moved p (Comment t) = Comment t"
| "prune_node moved p (OtherNode k) = OtherNode k"
| "prune_list moved p i [] = []"
| "prune_list moved p i (k # ks) =
     (if p @ [i] \<in> set moved then [] else [prune_node moved (p @ [i]) k])
       @ prune_list moved p (Suc i) ks"

text \<open>\<open>_.some($(block).children().toArray(), isBlock)\<close>.\<close>

definition hasBlockChildren :: "node \<Rightarrow> bool" where
  "hasBlockChildren block = (\<exists>c \<in> set (childNodes block). isElement c \<and> isBlock c)"

text \<open>The test that decides whether a block is appended to the root.\<close>

definition keeps :: "node \<Rightarrow> bool" where
  "keeps block =
     (isContentEditableTurnedOff block \<or> (\<not> isEmptyElement block False \<and> \<not> hasBlockChildren block))"

text \<open>One pass through the body of \<open>_.each(blockNodes, ...)\<close>, and the whole loop.\<close>

definition flatten_step :: "(nat list \<times> node) list \<Rightarrow> nat list \<times> node \<Rightarrow> (nat list \<times> node) list" where
  "flatten_step moved b =
     (if keeps (prune_node (map fst moved) (fst b) (snd b)) then moved @ [b] else moved)"

definition flatten_loop :: "(nat list \<times> node) list \<Rightarrow> (nat list \<times> node) list" where
  "flatten_loop blockNodes = foldl flatten_step [] blockNodes"

text \<open>
  \<open>flattenBlocksDown(rootNode, preserveInline)\<close>, as a function from the children of
  the root before to the children after.
\<close>

definition flattenBlocksDown :: "node list \<Rightarrow> bool \<Rightarrow> node list" where
  "flattenBlocksDown kids preserveInline =
     (let kids1 = normalize_list kids;
          kids2 = (if \<not> preserveInline then blockifyInlineNodes kids1 else kids1);
          blockNodes = getBlockNodes kids2
      in if blockNodes = [] \<and> preserveInline then kids2
         else
           (let kids3 = (if preserveInline then blockifyInlineNodes kids2 else kids2);
                blockNodes3 = (if preserveInline then getBlockNodes kids3 else blockNodes);
                moved = flatten_loop blockNodes3
            in map (\<lambda>b. prune_node (map fst moved) (fst b) (snd b)) moved))"

text \<open>
  A list of collected nodes in which no node comes before a node that it lies
  strictly inside (as in document order, where an ancestor comes first).
\<close>

fun pre_ok :: "(nat list \<times> node) list \<Rightarrow> bool" where
  "pre_ok [] = True"
| "pre_ok (x # xs) = ((\<forall>y \<in> set xs. \<not> strict_prefix (fst y) (fst x)) \<and> pre_ok xs)"

text \<open>
  A flat list of root children: the text is normalized, and every child is an element
  that is collected (a block or not editable), is left alone by
  \<open>blockifyInlineNodes\<close>, passes the test of the loop, and has no collected node below.
\<close>

definition flat :: "node list \<Rightarrow> bool" where
  "flat kids =
     (normalize_list kids = kids \<and>
      (\<forall>k \<in> set kids.
         isElement k
         \<and> (isBlock k \<or> isContentEditableTurnedOff k)
         \<and> (isBlock k \<or> isMedia k \<or> nodeName k = mediaHolderElement \<or> nodeName k = separatorElement)
         \<and> keeps k
         \<and> getBlockNodes (childNodes k) = []))"

text \<open>Sample roots.\<close>

definition nested_quote :: "node list" where
  "nested_quote = [Element ''BLOCKQUOTE'' [] [Element ''P'' [] [Text ''a'']], Element ''P'' [] []]"

definition nested_list :: "node list" where
  "nested_list = [Element ''UL'' [] [Element ''LI'' [] [Element ''P'' [] [Text ''a'']]]]"


text \<open>A list of siblings without empty text nodes and without adjacent text nodes.\<close>

fun merged :: "node list \<Rightarrow> bool" where
  "merged [] = True"
| "merged (Text s # rest) =
     (s \<noteq> [] \<and> (case rest of Text t # r \<Rightarrow> False | _ \<Rightarrow> True) \<and> merged rest)"
| "merged (x # rest) = merged rest"

definition inline_root :: "node list" where
  "inline_root = [Text ''a'', Text ''b'', Element ''B'' [] [Text ''c'']]"

section \<open>Selection persistence (src/src/selectionContext.js)\<close>

text \<open>
  A node of the container is named by its path, the child indices from the container
  down. A range has two boundary points, each a node and an offset in it (a position
  in the data of a text node, or among the children of an element).
\<close>

type_synonym path = "nat list"

record dom_range =
  startContainer :: path
  startOffset :: nat
  endContainer :: path
  endOffset :: nat

text \<open>
  Tree order of boundary points. The point \<open>(p, i)\<close> is before \<open>(q, j)\<close> when \<open>p @ [i]\<close>
  comes first in the lexicographic order: a point in an element is before all that
  is inside its child of that index, and after all that is inside an earlier child.
\<close>

fun bp_before :: "nat list \<Rightarrow> nat list \<Rightarrow> bool" where
  "bp_before [] [] = False"
| "bp_before [] (y # ys) = True"
| "bp_before (x # xs) [] = False"
| "bp_before (x # xs) (y # ys) = (x < y \<or> (x = y \<and> bp_before xs ys))"

definition before :: "path \<Rightarrow> nat \<Rightarrow> path \<Rightarrow> nat \<Rightarrow> bool" where
  "before p i q j = bp_before (p @ [i]) (q @ [j])"

definition collapsed_at :: "path \<Rightarrow> nat \<Rightarrow> dom_range" where
  "collapsed_at p i = \<lparr>startContainer = p, startOffset = i, endContainer = p, endOffset = i\<rparr>"

text \<open>
  \<open>range.setStart(node, offset)\<close> and \<open>range.setEnd(node, offset)\<close>: a start after the
  end, or an end before the start, collapses the range to the new point.
\<close>

definition setStart :: "dom_range \<Rightarrow> path \<Rightarrow> nat \<Rightarrow> dom_range" where
  "setStart r p i =
     (if before (endContainer r) (endOffset r) p i then collapsed_at p i
      else r\<lparr>startContainer := p, startOffset := i\<rparr>)"

definition setEnd :: "dom_range \<Rightarrow> path \<Rightarrow> nat \<Rightarrow> dom_range" where
  "setEnd r p i =
     (if before p i (startContainer r) (startOffset r) then collapsed_at p i
      else r\<lparr>endContainer := p, endOffset := i\<rparr>)"

text \<open>The node at a path, and the length of a node as the DOM defines it.\<close>

fun node_at :: "node \<Rightarrow> path \<Rightarrow> node option" where
  "node_at t [] = Some t"
| "node_at (Element n as ks) (i # p) = (if i < length ks then node_at (ks ! i) p else None)"
| "node_at (Text s) (i # p) = None"
| "node_at (EntityRef s) (i # p) = None"
| "node_at (Comment s) (i # p) = None"
| "node_at (OtherNode k) (i # p) = None"

fun node_length :: "node \<Rightarrow> nat" where
  "node_length (Element n as ks) = length ks"
| "node_length (Text s) = length s"
| "node_length (Comment s) = length s"
| "node_length (EntityRef s) = 0"
| "node_length (OtherNode k) = 0"

text \<open>
  The number of characters of text that come before a boundary point, in all text
  nodes of the tree, and \<open>range.toString()\<close>: the text between the two boundary
  points, from all text nodes in tree order, editable or not.
\<close>

fun chars_before :: "node \<Rightarrow> path \<Rightarrow> nat \<Rightarrow> nat" where
  "chars_before (Element n as ks) [] i = length (text_of_list (take i ks))"
| "chars_before (Element n as ks) (k # p) i =
     length (text_of_list (take k ks)) + (if k < length ks then chars_before (ks ! k) p i else 0)"
| "chars_before (Text s) p i = min i (length s)"
| "chars_before (EntityRef s) p i = 0"
| "chars_before (Comment s) p i = 0"
| "chars_before (OtherNode k) p i = 0"

definition range_toString :: "node \<Rightarrow> dom_range \<Rightarrow> string" where
  "range_toString t r =
     (let a = chars_before t (startContainer r) (startOffset r);
          b = chars_before t (endContainer r) (endOffset r)
      in take (b - a) (drop a (text_of t)))"

text \<open>\<open>selection.toString()\<close>, of a selection with one range or none.\<close>

definition selection_toString :: "node \<Rightarrow> dom_range option \<Rightarrow> string" where
  "selection_toString t sel = (case sel of None \<Rightarrow> [] | Some r \<Rightarrow> range_toString t r)"

text \<open>
  Both functions walk the container with a stack: \<open>nodeStack.pop()\<close> takes the head
  of the list, and the children of an element are pushed last child first, so that
  the first child is on top. The children of an element whose attribute
  \<open>contenteditable\<close> is \<open>'false'\<close> are not pushed.
\<close>

fun kids_from :: "path \<Rightarrow> nat \<Rightarrow> node list \<Rightarrow> (path \<times> node) list" where
  "kids_from p i [] = []"
| "kids_from p i (k # ks) = (p @ [i], k) # kids_from p (Suc i) ks"

definition push_children :: "path \<Rightarrow> (string \<times> string) list \<Rightarrow> node list
    \<Rightarrow> (path \<times> node) list \<Rightarrow> (path \<times> node) list" where
  "push_children p as ks st =
     (if map_of as ''contenteditable'' \<noteq> Some ''false'' then kids_from p 0 ks @ st else st)"

fun weight :: "node \<Rightarrow> nat" where
  "weight (Element n as ks) = Suc (sum_list (map weight ks))"
| "weight (Text s) = 1"
| "weight (EntityRef s) = 1"
| "weight (Comment s) = 1"
| "weight (OtherNode k) = 1"

definition stack_weight :: "(path \<times> node) list \<Rightarrow> nat" where
  "stack_weight st = sum_list (map (\<lambda>x. weight (snd x)) st)"

text \<open>
  The loop of \<open>saveSelection\<close>. A node that is neither text nor element (a comment)
  has no \<open>getAttribute\<close>, and the call throws.
\<close>

function (sequential) save_walk :: "(path \<times> node) list \<Rightarrow> path \<Rightarrow> nat \<Rightarrow> nat \<Rightarrow> string + nat" where
  "save_walk [] sc so start = Inr start"
| "save_walk ((p, Text s) # st) sc so start =
     (if p = sc then Inr (start + so) else save_walk st sc so (start + length s))"
| "save_walk ((p, Element n as ks) # st) sc so start =
     save_walk (push_children p as ks st) sc so start"
| "save_walk ((p, x) # st) sc so start = Inl ''TypeError''"
  by pat_completeness auto
termination
proof (relation "measure (\<lambda>(st, sc, so, start). stack_weight st)")
  have kids: "stack_weight (kids_from p i ks) = sum_list (map weight ks)" for p i ks
    by (induction ks arbitrary: i) (simp_all add: stack_weight_def)
  have app: "stack_weight (a @ b) = stack_weight a + stack_weight b" for a b
    by (simp add: stack_weight_def)
  fix p :: path and n as ks and st :: "(path \<times> node) list" and sc :: path and so start :: nat
  show "((push_children p as ks st, sc, so, start), (p, Element n as ks) # st, sc, so, start)
          \<in> measure (\<lambda>(st, sc, so, start). stack_weight st)"
    by (simp add: push_children_def app kids) (simp add: stack_weight_def)
qed (simp_all add: stack_weight_def)

text \<open>The object returned by \<open>saveSelection\<close>.\<close>

record saved_sel =
  sv_endContainer :: path
  sv_start :: nat
  sv_end :: nat

text \<open>
  \<open>saveSelection(containerEl, selection)\<close>. The selection is given by its first range,
  \<open>None\<close> when it has no range.
\<close>

definition saveSelection :: "node \<Rightarrow> dom_range option \<Rightarrow> string + saved_sel option" where
  "saveSelection containerEl sel =
     (case sel of
        None \<Rightarrow> Inr None
      | Some rng \<Rightarrow>
          (case save_walk [([], containerEl)] (startContainer rng) (startOffset rng) 0 of
             Inl e \<Rightarrow> Inl e
           | Inr start \<Rightarrow>
               Inr (Some \<lparr>sv_endContainer = endContainer rng, sv_start = start,
                          sv_end = start + length (range_toString containerEl rng)\<rparr>)))"

text \<open>
  The body of the loop of \<open>restoreSelection\<close> at a text node: the two tests that set
  the start, giving the new \<open>foundStart\<close> and range.
\<close>

definition find_start :: "saved_sel \<Rightarrow> path \<Rightarrow> nat \<Rightarrow> nat \<Rightarrow> bool \<Rightarrow> dom_range \<Rightarrow> bool \<times> dom_range" where
  "find_start sv p charIndex nextCharIndex foundStart rng =
     (let (fs1, r1) =
            (if \<not> foundStart \<and> sv_start sv \<ge> charIndex \<and> sv_start sv < nextCharIndex
             then (True, setStart rng p (sv_start sv - charIndex))
             else (foundStart, rng))
      in if \<not> fs1 \<and> nextCharIndex = sv_end sv
         then (True, setStart r1 p (sv_end sv - charIndex))
         else (fs1, r1))"

text \<open>
  The loop of \<open>restoreSelection\<close>. It gives \<open>charIndex\<close>, \<open>foundEnd\<close> and the range when
  it ends.
\<close>

function (sequential) restore_walk :: "(path \<times> node) list \<Rightarrow> saved_sel \<Rightarrow> nat \<Rightarrow> bool \<Rightarrow> dom_range
    \<Rightarrow> string + (nat \<times> bool \<times> dom_range)" where
  "restore_walk [] sv charIndex foundStart rng = Inr (charIndex, False, rng)"
| "restore_walk ((p, Text s) # st) sv charIndex foundStart rng =
     (let nextCharIndex = charIndex + length s;
          fr = find_start sv p charIndex nextCharIndex foundStart rng
      in if fst fr \<and> sv_end sv \<ge> charIndex \<and> sv_end sv \<le> nextCharIndex
         then Inr (nextCharIndex, True, setEnd (snd fr) p (sv_end sv - charIndex))
         else restore_walk st sv nextCharIndex (fst fr) (snd fr))"
| "restore_walk ((p, Element n as ks) # st) sv charIndex foundStart rng =
     restore_walk (push_children p as ks st) sv charIndex foundStart rng"
| "restore_walk ((p, x) # st) sv charIndex foundStart rng = Inl ''TypeError''"
  by pat_completeness auto
termination
proof (relation "measure (\<lambda>(st, sv, c, fs, r). stack_weight st)")
  have kids: "stack_weight (kids_from p i ks) = sum_list (map weight ks)" for p i ks
    by (induction ks arbitrary: i) (simp_all add: stack_weight_def)
  have app: "stack_weight (a @ b) = stack_weight a + stack_weight b" for a b
    by (simp add: stack_weight_def)
  fix p :: path and n as ks and st :: "(path \<times> node) list" and sv :: saved_sel
    and c :: nat and fs :: bool and r :: dom_range
  show "((push_children p as ks st, sv, c, fs, r), (p, Element n as ks) # st, sv, c, fs, r)
          \<in> measure (\<lambda>(st, sv, c, fs, r). stack_weight st)"
    by (simp add: push_children_def app kids) (simp add: stack_weight_def)
qed (simp_all add: stack_weight_def)

text \<open>
  \<open>restoreSelection(savedSel)\<close> on the container as it is now. \<open>endNow\<close> is the place
  of the saved end container in the container now, \<open>None\<close> when that node is no longer
  in it; \<open>current\<close> is the selection before the call. When the loop has not found the
  end, the end is set in the saved end container: an offset that is negative or
  beyond the length of the node throws, which is caught and leaves the range as it
  is; a range set into a node outside the document is not added, and the selection
  stays without a range.
\<close>

definition restoreSelection :: "node \<Rightarrow> path option \<Rightarrow> saved_sel option \<Rightarrow> dom_range option
    \<Rightarrow> string + dom_range option" where
  "restoreSelection container endNow savedSel current =
     (case savedSel of
        None \<Rightarrow> Inr current
      | Some sv \<Rightarrow>
          (case restore_walk [([], container)] sv 0 False (collapsed_at [] 0) of
             Inl e \<Rightarrow> Inl e
           | Inr (charIndex, foundEnd, rng) \<Rightarrow>
               if foundEnd then Inr (Some rng)
               else
                 (case endNow of
                    None \<Rightarrow> Inr None
                  | Some q \<Rightarrow>
                      (case node_at container q of
                         None \<Rightarrow> Inr None
                       | Some nd \<Rightarrow>
                           if charIndex \<le> sv_end sv \<and> sv_end sv - charIndex \<le> node_length nd
                           then Inr (Some (setEnd rng q (sv_end sv - charIndex)))
                           else Inr (Some rng)))))"

text \<open>The text of the selection after \<open>restoreSelection\<close>, \<open>None\<close> when the call throws.\<close>

definition restored_text :: "node \<Rightarrow> path option \<Rightarrow> saved_sel option \<Rightarrow> dom_range option
    \<Rightarrow> string option" where
  "restored_text container endNow savedSel current =
     (case restoreSelection container endNow savedSel current of
        Inl e \<Rightarrow> None
      | Inr sel \<Rightarrow> Some (selection_toString container sel))"

text \<open>
  The text nodes that the walk reaches, in the order of the walk, with their paths;
  the editable text of the container, which is their concatenation; and the trees in
  which the walk meets only elements and text nodes.
\<close>

fun etexts :: "path \<Rightarrow> node \<Rightarrow> (path \<times> string) list"
  and etexts_list :: "path \<Rightarrow> nat \<Rightarrow> node list \<Rightarrow> (path \<times> string) list" where
  "etexts p (Element n as ks) =
     (if map_of as ''contenteditable'' \<noteq> Some ''false'' then etexts_list p 0 ks else [])"
| "etexts p (Text s) = [(p, s)]"
| "etexts p (EntityRef s) = []"
| "etexts p (Comment s) = []"
| "etexts p (OtherNode k) = []"
| "etexts_list p i [] = []"
| "etexts_list p i (k # ks) = etexts (p @ [i]) k @ etexts_list p (Suc i) ks"

definition editable_text :: "node \<Rightarrow> string" where
  "editable_text t = concat (map snd (etexts [] t))"

fun walkable :: "node \<Rightarrow> bool" where
  "walkable (Element n as ks) =
     (map_of as ''contenteditable'' \<noteq> Some ''false'' \<longrightarrow> list_all walkable ks)"
| "walkable (Text s) = True"
| "walkable (EntityRef s) = False"
| "walkable (Comment s) = False"
| "walkable (OtherNode k) = False"

text \<open>No text inside a subtree that is marked not editable.\<close>

fun editable_only :: "node \<Rightarrow> bool" where
  "editable_only (Element n as ks) =
     (if map_of as ''contenteditable'' \<noteq> Some ''false'' then list_all editable_only ks
      else text_of_list ks = [])"
| "editable_only (Text s) = True"
| "editable_only (EntityRef s) = True"
| "editable_only (Comment s) = True"
| "editable_only (OtherNode k) = True"

text \<open>
  The offset in the editable text of a boundary point that lies in a text node
  reached by the walk; \<open>None\<close> for any other boundary point.
\<close>

fun locate :: "(path \<times> string) list \<Rightarrow> path \<Rightarrow> nat \<Rightarrow> (nat \<times> string) option" where
  "locate [] p c = None"
| "locate ((q, s) # rest) p c = (if q = p then Some (c, s) else locate rest p (c + length s))"

definition editable_offset :: "node \<Rightarrow> path \<Rightarrow> nat \<Rightarrow> nat option" where
  "editable_offset t p i =
     (case locate (etexts [] t) p 0 of
        None \<Rightarrow> None
      | Some (c, s) \<Rightarrow> if i \<le> length s then Some (c + i) else None)"

text \<open>The two loops on the list of the text nodes that the walk reaches.\<close>

fun save_list :: "(path \<times> string) list \<Rightarrow> path \<Rightarrow> nat \<Rightarrow> nat \<Rightarrow> nat" where
  "save_list [] sc so start = start"
| "save_list ((p, s) # rest) sc so start =
     (if p = sc then start + so else save_list rest sc so (start + length s))"

fun restore_list :: "(path \<times> string) list \<Rightarrow> saved_sel \<Rightarrow> nat \<Rightarrow> bool \<Rightarrow> dom_range
    \<Rightarrow> nat \<times> bool \<times> dom_range" where
  "restore_list [] sv charIndex foundStart rng = (charIndex, False, rng)"
| "restore_list ((p, s) # rest) sv charIndex foundStart rng =
     (let nextCharIndex = charIndex + length s;
          fr = find_start sv p charIndex nextCharIndex foundStart rng
      in if fst fr \<and> sv_end sv \<ge> charIndex \<and> sv_end sv \<le> nextCharIndex
         then (nextCharIndex, True, setEnd (snd fr) p (sv_end sv - charIndex))
         else restore_list rest sv nextCharIndex (fst fr) (snd fr))"

definition stack_texts :: "(path \<times> node) list \<Rightarrow> (path \<times> string) list" where
  "stack_texts st = concat (map (\<lambda>x. etexts (fst x) (snd x)) st)"

text \<open>Two paths that part at some index, the first going to the earlier child.\<close>

fun parts_before :: "nat list \<Rightarrow> nat list \<Rightarrow> bool" where
  "parts_before (x # xs) (y # ys) = (x < y \<or> (x = y \<and> parts_before xs ys))"
| "parts_before xs ys = False"

text \<open>Sample containers and selections.\<close>

definition hidden_text_root :: node where
  "hidden_text_root =
     Element ''DIV'' []
       [Text ''ab'', Element ''SPAN'' [(''contenteditable'', ''false'')] [Text ''X''], Text ''cd'']"

definition plain_root :: node where
  "plain_root =
     Element ''DIV'' []
       [Element ''P'' [] [Text ''ab'', Element ''B'' [] [Text ''cd'']], Text ''ef'']"

definition rewrapped_root :: node where
  "rewrapped_root =
     Element ''DIV'' []
       [Element ''P'' [] [Text ''a''],
        Element ''DIV'' [(''contenteditable'', ''false'')] [Element ''IMG'' [] []],
        Element ''P'' [] [Element ''I'' [] [Text ''bcd'']],
        Text ''ef'']"

section \<open>Verified properties\<close>

subsection \<open>Undo manager: checkpoints and notifications\<close>

lemma step_quiet: "quiet ev \<Longrightarrow> step (new_manager, e) ev = (new_manager, e)"
  by (cases ev) (auto simp: onChange_def new_manager_def debounceFire_def)

lemma run_quiet: "list_all quiet pre \<Longrightarrow> run (new_manager, e) pre = (new_manager, e)"
  by (induction pre) (auto simp: run_def step_quiet)

lemma adjacent_differ_snoc:
  "adjacent_differ (xs @ [a]) \<Longrightarrow> a \<noteq> b \<Longrightarrow> adjacent_differ (xs @ [a, b])"
  by (induction xs rule: adjacent_differ.induct) auto

definition manager_inv :: "manager \<Rightarrow> bool" where
  "manager_inv m = ((currState m = None \<longrightarrow> undoStates m = []) \<and> adjacent_differ (chain m))"

lemma saveState_inv: "manager_inv m \<Longrightarrow> manager_inv (saveState m env)"
  by (auto simp: manager_inv_def saveState_def chain_def Let_def createState_def
        adjacent_differ_snoc split: option.splits)

lemma manager_inv_timer [simp]: "manager_inv (m\<lparr> timer := t \<rparr>) = manager_inv m"
  by (simp add: manager_inv_def chain_def)

lemma manager_inv_isRestoring [simp]: "manager_inv (m\<lparr> isRestoring := b \<rparr>) = manager_inv m"
  by (simp add: manager_inv_def chain_def)

lemma onChange_inv: "manager_inv (fst me) \<Longrightarrow> manager_inv (fst (onChange me ty env))"
  by (simp add: onChange_def Let_def saverDebounced_def saveState_inv)

lemma debounceFire_inv: "manager_inv m \<Longrightarrow> manager_inv (debounceFire m env)"
  by (auto simp: debounceFire_def Let_def saveState_inv split: option.splits)

lemma step_inv: "manager_inv (fst me) \<Longrightarrow> manager_inv (fst (step me ev))"
  by (cases ev) (simp_all add: onChange_inv debounceFire_inv)

lemma foldl_step_inv: "manager_inv (fst me) \<Longrightarrow> manager_inv (fst (foldl step me evs))"
  by (induction evs arbitrary: me) (simp_all add: step_inv)

lemma run_inv: "manager_inv (fst (run (new_manager, e) evs))"
  unfolding run_def by (rule foldl_step_inv) (simp add: manager_inv_def new_manager_def chain_def)

text \<open>
  Claim C10. A change notification of type \<open>'updateAsyncImage'\<close>, received while the
  manager is not restoring, changes nothing: the undo stack, the redo stack, the
  checkpoint and the debounce timer are as before (no capture is scheduled), and the
  editor's original \<open>onChange\<close> is not called, so the host's \<open>config.onChange\<close> does not
  run: the pair of manager and editor is returned as it was.
\<close>

theorem updateAsyncImage_notification_is_noop:
  "\<not> isRestoring m \<Longrightarrow> onChange (m, e) (Some ''updateAsyncImage'') env = (m, e)"
  by (simp add: onChange_def)

theorem updateAsyncImage_notification_is_noop_witness:
  "\<not> isRestoring (fst (run (new_manager, new_editor) [Notify None env_a, Notify None env_b]))
   \<and> timer (fst (run (new_manager, new_editor) [Notify None env_a, Notify None env_b])) = Some 1200
   \<and> onChange (run (new_manager, new_editor) [Notify None env_a, Notify None env_b])
         (Some ''updateAsyncImage'') env_b
       = run (new_manager, new_editor) [Notify None env_a, Notify None env_b]"
proof -
  let ?me = "run (new_manager, new_editor) [Notify None env_a, Notify None env_b]"
  have r: "\<not> isRestoring (fst ?me)"
    by (simp add: run_def onChange_def saveState_def saverDebounced_def new_manager_def)
  have t: "timer (fst ?me) = Some 1200"
    by (simp add: run_def onChange_def saveState_def saverDebounced_def new_manager_def
          env_b_def TIME_BETWEEN_CHANGES_def)
  from updateAsyncImage_notification_is_noop [OF r, of "snd ?me" env_b]
  have "onChange ?me (Some ''updateAsyncImage'') env_b = ?me" by simp
  with r t show ?thesis by blast
qed

text \<open>
  Claim C4, as stated, fails on a run that starts with a notification of type
  \<open>'updateAsyncImage'\<close> (the public \<open>updateAsyncImage\<close> method sends it): the handler
  returns before \<open>saveState\<close>, so the very first notification records no checkpoint.
\<close>

theorem first_notification_counterexample:
  "currState (fst (run (new_manager, new_editor) [Notify (Some ''updateAsyncImage'') env_a]))
     \<noteq> Some (createState env_a)"
  by (simp add: run_def onChange_def new_manager_def)

text \<open>
  Claim C4, amended. On a new manager, after any notifications of type
  \<open>'updateAsyncImage'\<close> (and expiries of the unarmed timer), the first notification of
  any other type makes the current (document, selection) pair the checkpoint at once:
  both stacks stay empty and no timer is armed. Once a checkpoint \<open>c\<close> exists, a
  notification (not restoring, not \<open>'updateAsyncImage'\<close>) only arms the timer; the
  capture that runs when the timer expires is \<open>saveState\<close>, which pushes \<open>c\<close> on the
  undo stack and replaces it exactly when the new serialized content differs from
  \<open>c\<close>'s, and otherwise leaves the manager as it is. Hence in every run of
  notifications and timer expiries no two neighbours among the recorded contents
  (undo stack, then checkpoint) are equal.
\<close>

theorem checkpoint_capture_rule:
  "(list_all quiet pre \<and> ty \<noteq> Some ''updateAsyncImage'' \<longrightarrow>
      fst (run (new_manager, e) (pre @ [Notify ty env]))
        = new_manager\<lparr> currState := Some (createState env) \<rparr>)
   \<and> (currState m = Some c \<and> \<not> isRestoring m \<and> ty \<noteq> Some ''updateAsyncImage'' \<longrightarrow>
      fst (onChange (m, e) ty env) = m\<lparr> timer := Some (now env + TIME_BETWEEN_CHANGES) \<rparr>)
   \<and> (timer m = Some d \<and> d \<le> now env \<and> \<not> isTorndown m \<longrightarrow>
      debounceFire m env = saveState (m\<lparr> timer := None \<rparr>) env)
   \<and> (currState m = Some c \<longrightarrow>
      saveState m env =
        (if docData env = data c then m
         else m\<lparr> undoStates := undoStates m @ [c], currState := Some (createState env) \<rparr>))
   \<and> adjacent_differ (chain (fst (run (new_manager, e) evs)))"
proof (intro conjI impI)
  assume "list_all quiet pre \<and> ty \<noteq> Some ''updateAsyncImage''"
  then show "fst (run (new_manager, e) (pre @ [Notify ty env]))
        = new_manager\<lparr> currState := Some (createState env) \<rparr>"
    using run_quiet [of pre e]
    by (simp add: run_def onChange_def saveState_def new_manager_def)
next
  assume "currState m = Some c \<and> \<not> isRestoring m \<and> ty \<noteq> Some ''updateAsyncImage''"
  then show "fst (onChange (m, e) ty env) = m\<lparr> timer := Some (now env + TIME_BETWEEN_CHANGES) \<rparr>"
    by (simp add: onChange_def saverDebounced_def)
next
  assume "timer m = Some d \<and> d \<le> now env \<and> \<not> isTorndown m"
  then show "debounceFire m env = saveState (m\<lparr> timer := None \<rparr>) env"
    by (simp add: debounceFire_def)
next
  assume "currState m = Some c"
  then show "saveState m env =
        (if docData env = data c then m
         else m\<lparr> undoStates := undoStates m @ [c], currState := Some (createState env) \<rparr>)"
    by (simp add: saveState_def createState_def)
next
  show "adjacent_differ (chain (fst (run (new_manager, e) evs)))"
    using run_inv [of e evs] by (simp add: manager_inv_def)
qed

theorem checkpoint_capture_rule_witness:
  "fst (run (new_manager, new_editor)
          ([Notify (Some ''updateAsyncImage'') env_a, Fire env_a] @ [Notify None env_b]))
     = new_manager\<lparr> currState := Some (createState env_b) \<rparr>
   \<and> fst (onChange (manager_a, new_editor) None env_b) = manager_a\<lparr> timer := Some 1200 \<rparr>
   \<and> debounceFire manager_a env_b = saveState (manager_a\<lparr> timer := None \<rparr>) env_b
   \<and> saveState manager_a env_b
       = manager_a\<lparr> undoStates := [createState env_a], currState := Some (createState env_b) \<rparr>
   \<and> adjacent_differ (chain (fst (run (new_manager, new_editor)
        [Notify None env_a, Notify None env_b, Fire env_b, Notify None env_b, Fire env_b])))"
proof -
  have h1: "list_all quiet [Notify (Some ''updateAsyncImage'') env_a, Fire env_a]
            \<and> (None :: string option) \<noteq> Some ''updateAsyncImage''"
    by simp
  have h2: "currState manager_a = Some (createState env_a) \<and> \<not> isRestoring manager_a
            \<and> (None :: string option) \<noteq> Some ''updateAsyncImage''"
    by (simp add: manager_a_def new_manager_def)
  have h3: "timer manager_a = Some 500 \<and> 500 \<le> now env_b \<and> \<not> isTorndown manager_a"
    by (simp add: manager_a_def new_manager_def env_b_def)
  have h4: "currState manager_a = Some (createState env_a)"
    by (simp add: manager_a_def)
  have ne: "docData env_b \<noteq> data (createState env_a)"
    by (simp add: env_a_def env_b_def createState_def)
  have u: "undoStates manager_a = []"
    by (simp add: manager_a_def new_manager_def)
  have t: "now env_b + TIME_BETWEEN_CHANGES = 1200"
    by (simp add: env_b_def TIME_BETWEEN_CHANGES_def)
  note r = checkpoint_capture_rule [of "[Notify (Some ''updateAsyncImage'') env_a, Fire env_a]"
      None new_editor env_b manager_a "createState env_a" 500
      "[Notify None env_a, Notify None env_b, Fire env_b, Notify None env_b, Fire env_b]"]
  from r h1 have c1: "fst (run (new_manager, new_editor)
          ([Notify (Some ''updateAsyncImage'') env_a, Fire env_a] @ [Notify None env_b]))
     = new_manager\<lparr> currState := Some (createState env_b) \<rparr>" by blast
  from r h2 t have c2: "fst (onChange (manager_a, new_editor) None env_b)
     = manager_a\<lparr> timer := Some 1200 \<rparr>" by simp
  from r h3 have c3: "debounceFire manager_a env_b = saveState (manager_a\<lparr> timer := None \<rparr>) env_b"
    by blast
  from r h4 ne u have c4: "saveState manager_a env_b
       = manager_a\<lparr> undoStates := [createState env_a], currState := Some (createState env_b) \<rparr>"
    by simp
  from r have c5: "adjacent_differ (chain (fst (run (new_manager, new_editor)
        [Notify None env_a, Notify None env_b, Fire env_b, Notify None env_b, Fire env_b])))"
    by blast
  from c1 c2 c3 c4 c5 show ?thesis by blast
qed

subsection \<open>Async image insertion: the failure branch\<close>

text \<open>The failure callback runs exactly in these cases, and an image is added in these.\<close>

lemma insertAsyncImage_fails_iff:
  "(insertAsyncImage br ins ed source fl
      = Inr (ed\<lparr> asyncImageFailedCalls := asyncImageFailedCalls ed + 1 \<rparr>))
   = (\<not> is_string source \<and> (truthy source \<or> \<not> truthy fl))"
  by (cases source; cases fl)
     (auto simp: insertAsyncImage_def addImageBySource_def Let_def
        split: option.splits dest: arg_cong [where f = asyncImageFailedCalls])

lemma insertAsyncImage_empty_string:
  "insertAsyncImage br ins ed (JStr []) Undefined = Inr (addImageBySource br ins Undefined ed [])"
  by (simp add: insertAsyncImage_def)



subsection \<open>Sanitizer: what survives\<close>

lemma same_rules_refl [simp]: "same_rules s s"
  by (simp add: same_rules_def)


lemma same_rules_protocols [simp]: "same_rules s (s\<lparr> protocols := p \<rparr>)"
  by (simp add: same_rules_def)





lemma forest_names_append [simp]:
  "forest_names (xs @ ys) = forest_names xs @ forest_names ys"
  by (induction xs) simp_all















text \<open>
  Claim C3 (the code departs from it). With the protocols of \<open>a.href\<close> restricted,
  \<open>javascript:alert(1)\<close> loses its \<open>href\<close> and an \<open>http\<close> link keeps it, as claimed.
  But \<open>/relative\<close> loses its \<open>href\<close> too, under the \<open>http\<close>/\<open>https\<close> rules and under the
  default rules: the code pushes \<open>Sanitize.RELATIVE\<close> onto the protocols and then tests
  whether the value starts with one of the entries, and \<open>/relative\<close> starts with none
  of \<open>http\<close>, \<open>https\<close>, \<open>__relative__\<close>.
\<close>

theorem href_protocol_filter_evaluated:
  "result_nodes (clean_node 2 http_only_sanitize body_javascript) = Ok [Element ''A'' [] [Text ''x'']]
   \<and> result_nodes (clean_node 2 http_only_sanitize body_http)
       = Ok [Element ''A'' [(''href'', ''http://example.org/'')] [Text ''x'']]
   \<and> result_nodes (clean_node 2 http_only_sanitize body_relative) = Ok [Element ''A'' [] [Text ''x'']]
   \<and> result_nodes (clean_node 2 default_sanitize body_relative) = Ok [Element ''A'' [] [Text ''x'']]"
  by code_simp

text \<open>
  Claim C8 (the code departs from it). Cleaning one \<open>a\<close> element with an \<open>href\<close> under
  the default rules leaves the protocols array of \<open>a.href\<close> one entry longer
  (\<open>protocols.push(Sanitize.RELATIVE)\<close> acts on the array of the configuration itself),
  and a second call adds another entry.
\<close>

theorem clean_node_grows_protocols:
  "protocols_of default_sanitize ''a'' ''href'' = Some [''http'', ''https'', ''mailto'']
   \<and> result_protocols (clean_node 2 default_sanitize body_http) ''a'' ''href''
       = Some [''http'', ''https'', ''mailto'', ''__RELATIVE__'']
   \<and> result_protocols (clean_node_twice 2 default_sanitize body_http) ''a'' ''href''
       = Some [''http'', ''https'', ''mailto'', ''__RELATIVE__'', ''__RELATIVE__'']"
  by code_simp

subsection \<open>Blockquote formatting: runs of text blocks\<close>







lemma stack_ids_Nil [simp]: "stack_ids [] = []"
  by (simp add: stack_ids_def)

lemma stack_ids_Cons [simp]: "stack_ids (S # SS) = map fst S @ stack_ids SS"
  by (simp add: stack_ids_def)

lemma wrapAll_Nil [simp]: "wrapAll ty L [] = L"
  by (simp add: wrapAll_def)




lemma new_wrappers_lab [simp]: "new_wrappers (map lab B) = []"
  by (induction B) (auto simp: new_wrappers_def lab_def)

lemma new_wrappers_append [simp]: "new_wrappers (A @ B) = new_wrappers A @ new_wrappers B"
  by (simp add: new_wrappers_def)













lemma media_nodes_list_append [simp]:
  "media_nodes_list (xs @ ys) = media_nodes_list xs @ media_nodes_list ys"
  by (induction xs) simp_all








subsection \<open>Block flattening: which blocks are re-appended\<close>

lemma prune_id:
  "(\<forall>q \<in> set M. \<not> strict_prefix p q) \<Longrightarrow> prune_node M p t = t"
  "(\<forall>q \<in> set M. \<not> strict_prefix p q) \<Longrightarrow> prune_list M p i ks = ks"
proof (induction M p t and M p i ks rule: prune_node_prune_list.induct)
  case (7 moved p i k ks)
  have a: "p @ [i] \<notin> set moved"
    using 7(3) by (auto simp: strict_prefix_def)
  have b: "\<forall>q \<in> set moved. \<not> strict_prefix (p @ [i]) q"
  proof
    fix q assume "q \<in> set moved"
    with 7(3) have "\<not> strict_prefix p q" by simp
    then show "\<not> strict_prefix (p @ [i]) q"
      by (auto simp: strict_prefix_def prefix_def)
  qed
  from 7(1) [OF a b] 7(2) [OF 7(3)] a show ?case by simp
qed simp_all


lemma elems_prefix:
  "x \<in> set (elems_node p t) \<Longrightarrow> prefix p (fst x)"
  "x \<in> set (elems_list p i ks) \<Longrightarrow> \<exists>j\<ge>i. prefix (p @ [j]) (fst x)"
proof (induction p t and p i ks arbitrary: x and x rule: elems_node_elems_list.induct)
  case (1 p n as ks)
  from 1(2) have "x = (p, Element n as ks) \<or> x \<in> set (elems_list p 0 ks)" by simp
  then show ?case
  proof
    assume "x = (p, Element n as ks)"
    then show ?thesis by simp
  next
    assume "x \<in> set (elems_list p 0 ks)"
    then obtain j where "prefix (p @ [j]) (fst x)" using 1(1) by blast
    then show ?thesis by (auto simp: prefix_def)
  qed
next
  case (7 p i k ks)
  from 7(3) have "x \<in> set (elems_node (p @ [i]) k) \<or> x \<in> set (elems_list p (Suc i) ks)"
    by simp
  then show ?case
  proof
    assume "x \<in> set (elems_node (p @ [i]) k)"
    then have "prefix (p @ [i]) (fst x)" by (rule 7(1))
    then show ?thesis by blast
  next
    assume "x \<in> set (elems_list p (Suc i) ks)"
    then obtain j where "Suc i \<le> j" "prefix (p @ [j]) (fst x)" using 7(2) by blast
    then show ?thesis using Suc_leD by blast
  qed
qed simp_all

lemma pre_ok_append:
  "pre_ok (xs @ ys) = (pre_ok xs \<and> pre_ok ys \<and> (\<forall>x \<in> set xs. \<forall>y \<in> set ys. \<not> strict_prefix (fst y) (fst x)))"
  by (induction xs) auto

lemma pre_ok_filter: "pre_ok xs \<Longrightarrow> pre_ok (filter P xs)"
  by (induction xs) auto

lemma two_prefixes:
  "prefix (p @ [i]) a \<Longrightarrow> prefix (p @ [j]) a \<Longrightarrow> i = j"
  by (auto simp: prefix_def append_eq_append_conv2 Cons_eq_append_conv)

lemma pre_ok_elems:
  "pre_ok (elems_node p t)"
  "pre_ok (elems_list p i ks)"
proof (induction p t and p i ks rule: elems_node_elems_list.induct)
  case (1 p n as ks)
  have "\<forall>y \<in> set (elems_list p 0 ks). \<not> strict_prefix (fst y) p"
  proof
    fix y assume "y \<in> set (elems_list p 0 ks)"
    then obtain j where "prefix (p @ [j]) (fst y)" using elems_prefix(2) by blast
    then show "\<not> strict_prefix (fst y) p"
      by (auto simp: strict_prefix_def prefix_def)
  qed
  with 1 show ?case by simp
next
  case (7 p i k ks)
  have "\<forall>x \<in> set (elems_node (p @ [i]) k). \<forall>y \<in> set (elems_list p (Suc i) ks).
          \<not> strict_prefix (fst y) (fst x)"
  proof (intro ballI notI)
    fix x y
    assume x: "x \<in> set (elems_node (p @ [i]) k)" and y: "y \<in> set (elems_list p (Suc i) ks)"
      and sp: "strict_prefix (fst y) (fst x)"
    from x have px: "prefix (p @ [i]) (fst x)" by (rule elems_prefix(1))
    from y obtain j where j: "Suc i \<le> j" "prefix (p @ [j]) (fst y)"
      using elems_prefix(2) by blast
    from j(2) sp have "prefix (p @ [j]) (fst x)"
      by (auto simp: strict_prefix_def prefix_def)
    with px have "i = j" by (rule two_prefixes)
    with j(1) show False by simp
  qed
  with 7 show ?case by (simp add: pre_ok_append)
qed simp_all

lemma flatten_fold:
  "pre_ok bs \<Longrightarrow> (\<forall>m \<in> set M. \<forall>b \<in> set bs. \<not> strict_prefix (fst b) (fst m)) \<Longrightarrow>
     foldl flatten_step M bs = M @ filter (\<lambda>b. keeps (snd b)) bs"
proof (induction bs arbitrary: M)
  case Nil
  then show ?case by simp
next
  case (Cons b bs)
  have "\<forall>q \<in> set (map fst M). \<not> strict_prefix (fst b) q"
    using Cons.prems(2) by auto
  then have same: "prune_node (map fst M) (fst b) (snd b) = snd b"
    by (rule prune_id(1))
  show ?case
  proof (cases "keeps (snd b)")
    case True
    then have "foldl flatten_step M (b # bs) = foldl flatten_step (M @ [b]) bs"
      by (simp add: flatten_step_def same)
    also have "\<dots> = (M @ [b]) @ filter (\<lambda>b. keeps (snd b)) bs"
      using Cons.prems by (intro Cons.IH) auto
    finally show ?thesis using True by simp
  next
    case False
    then have "foldl flatten_step M (b # bs) = foldl flatten_step M bs"
      by (simp add: flatten_step_def same)
    also have "\<dots> = M @ filter (\<lambda>b. keeps (snd b)) bs"
      using Cons.prems by (intro Cons.IH) auto
    finally show ?thesis using False by simp
  qed
qed

lemma flatten_loop_blocks:
  "flatten_loop (getBlockNodes kids) = filter (\<lambda>b. keeps (snd b)) (getBlockNodes kids)"
  unfolding flatten_loop_def
  using flatten_fold [of "getBlockNodes kids" "[]"]
  by (simp add: getBlockNodes_def pre_ok_filter pre_ok_elems)






subsection \<open>Block flattening: applying it twice\<close>

lemma merged_merge_text: "merged (merge_text xs)"
proof (induction xs)
  case Nil
  then show ?case by simp
next
  case (Cons x xs)
  show ?case
  proof (cases x)
    case (Text s)
    with Cons show ?thesis
      by (cases "s = []") (auto split: list.splits node.splits)
  qed (use Cons in auto)
qed

lemma merge_text_id: "merged xs \<Longrightarrow> merge_text xs = xs"
proof (induction xs)
  case Nil
  then show ?case by simp
next
  case (Cons x xs)
  show ?case
  proof (cases x)
    case (Text s)
    with Cons show ?thesis
      by (cases "s = []") (auto split: list.splits node.splits)
  qed (use Cons in auto)
qed

lemma merge_text_idem: "merge_text (merge_text xs) = merge_text xs"
  by (simp add: merge_text_id merged_merge_text)

lemma merge_text_map_cases:
  assumes "merge_text (map normalize_node rest) = map normalize_node (merge_text rest)"
  shows "(case merge_text (map normalize_node rest) of
            Text t # r \<Rightarrow> Text (s @ t) # r
          | r \<Rightarrow> Text s # r)
       = map normalize_node (case merge_text rest of
            Text t # r \<Rightarrow> Text (s @ t) # r
          | r \<Rightarrow> Text s # r)"
proof (cases "merge_text rest")
  case Nil
  with assms show ?thesis by simp
next
  case (Cons y ys)
  with assms show ?thesis by (cases y) auto
qed

lemma map_normalize_merge:
  "map normalize_node (merge_text xs) = merge_text (map normalize_node xs)"
proof (induction xs)
  case Nil
  then show ?case by simp
next
  case (Cons x xs)
  show ?case
  proof (cases x)
    case (Text s)
    show ?thesis
    proof (cases "s = []")
      case True
      with Text Cons show ?thesis by simp
    next
      case False
      with Text show ?thesis
        using merge_text_map_cases [OF Cons [symmetric], of s] by simp
    qed
  qed (use Cons in auto)
qed

lemma normalize_node_idem: "normalize_node (normalize_node t) = normalize_node t"
proof (induction t)
  case (Element n as ks)
  then have "map normalize_node (map normalize_node ks) = map normalize_node ks"
    by (induction ks) auto
  then show ?case
    by (simp add: map_normalize_merge merge_text_idem del: map_map)
qed simp_all

lemma normalize_list_idem: "normalize_list (normalize_list ks) = normalize_list ks"
proof -
  have "map normalize_node (map normalize_node ks) = map normalize_node ks"
    by (induction ks) (auto simp: normalize_node_idem)
  then show ?thesis
    by (simp add: normalize_list_def map_normalize_merge merge_text_idem del: map_map)
qed

lemma elems_paths_irrelevant:
  "map snd (elems_node p t) = map snd (elems_node q t)"
  "map snd (elems_list p i ks) = map snd (elems_list q j ks)"
proof (induction p t and p i ks arbitrary: q and q j rule: elems_node_elems_list.induct)
  case (1 p n as ks)
  from 1 [of q 0] show ?case by simp
next
  case (7 p i k ks)
  from 7(1) [of "q @ [j]"] 7(2) [of q "Suc j"] show ?case by simp
qed simp_all

lemma filter_snd_paths:
  "filter (\<lambda>x. Q (snd x)) (elems_list p i ks) = [] \<longleftrightarrow>
   filter (\<lambda>x. Q (snd x)) (elems_list q j ks) = []"
proof -
  have "filter (\<lambda>x. Q (snd x)) xs = [] \<longleftrightarrow> filter Q (map snd xs) = []" for xs :: "(nat list \<times> node) list"
    by (induction xs) auto
  then show ?thesis
    using elems_paths_irrelevant(2) [of p i ks q j] by simp
qed

lemma flat_blocks:
  assumes "\<forall>k \<in> set ks. isElement k \<and> Q k
              \<and> filter (\<lambda>x. Q (snd x)) (elems_list [] 0 (childNodes k)) = []"
  shows "map snd (filter (\<lambda>x. Q (snd x)) (elems_list p i ks)) = ks
       \<and> (\<forall>x \<in> set (filter (\<lambda>x. Q (snd x)) (elems_list p i ks)). length (fst x) = Suc (length p))"
  using assms
proof (induction ks arbitrary: i)
  case Nil
  then show ?case by simp
next
  case (Cons k ks)
  from Cons.prems obtain n as cs where k: "k = Element n as cs"
    by (cases k) auto
  from Cons.prems k have q: "Q (Element n as cs)"
    and none: "filter (\<lambda>x. Q (snd x)) (elems_list [] 0 cs) = []"
    by auto
  from none have none': "filter (\<lambda>x. Q (snd x)) (elems_list (p @ [i]) 0 cs) = []"
    using filter_snd_paths [of Q "p @ [i]" 0 cs "[]" 0] by simp
  from Cons.prems have "\<forall>k \<in> set ks. isElement k \<and> Q k
              \<and> filter (\<lambda>x. Q (snd x)) (elems_list [] 0 (childNodes k)) = []"
    by simp
  from Cons.IH [OF this, of "Suc i"] q none' show ?case
    by (simp add: k)
qed

lemma flat_fixpoint:
  assumes "flat kids"
  shows "flattenBlocksDown kids preserveInline = kids"
proof -
  let ?Q = "\<lambda>k. isBlock k \<or> isContentEditableTurnedOff k"
  from assms have n: "normalize_list kids = kids"
    and each: "\<forall>k \<in> set kids. isElement k \<and> ?Q k
         \<and> (isBlock k \<or> isMedia k \<or> nodeName k = mediaHolderElement \<or> nodeName k = separatorElement)
         \<and> keeps k \<and> getBlockNodes (childNodes k) = []"
    by (auto simp: flat_def)
  have wt: "map wrap_text kids = kids"
  proof (rule map_idI)
    fix k assume "k \<in> set kids"
    with each have "isElement k" by blast
    then show "wrap_text k = k" by (cases k) auto
  qed
  have wi: "map wrap_inline kids = kids"
  proof (rule map_idI)
    fix k assume "k \<in> set kids"
    with each have "isElement k"
      "isBlock k \<or> isMedia k \<or> nodeName k = mediaHolderElement \<or> nodeName k = separatorElement"
      by blast+
    then show "wrap_inline k = k" by (cases k) auto
  qed
  have b: "blockifyInlineNodes kids = kids"
    by (simp add: blockifyInlineNodes_def wrapTextNodes_def n wt wi)
  let ?B = "getBlockNodes kids"
  from each have "\<forall>k \<in> set kids. isElement k \<and> ?Q k
       \<and> filter (\<lambda>x. ?Q (snd x)) (elems_list [] 0 (childNodes k)) = []"
    by (simp add: getBlockNodes_def)
  from flat_blocks [OF this, of "[]" 0]
  have snd_B: "map snd ?B = kids" and len_B: "\<forall>x \<in> set ?B. length (fst x) = 1"
    by (simp_all add: getBlockNodes_def)
  have keepB: "\<forall>b \<in> set ?B. keeps (snd b)"
  proof
    fix b assume "b \<in> set ?B"
    then have "snd b \<in> set (map snd ?B)" by simp
    with snd_B each show "keeps (snd b)" by simp
  qed
  then have loop: "flatten_loop ?B = ?B"
    by (simp add: flatten_loop_blocks filter_id_conv)
  have pr: "map (\<lambda>b. prune_node (map fst ?B) (fst b) (snd b)) ?B = map snd ?B"
  proof (rule map_cong [OF refl])
    fix b assume bB: "b \<in> set ?B"
    have "\<forall>q \<in> set (map fst ?B). \<not> strict_prefix (fst b) q"
    proof
      fix q assume "q \<in> set (map fst ?B)"
      with len_B have "length q = 1" by auto
      moreover from bB len_B have "length (fst b) = 1" by blast
      ultimately show "\<not> strict_prefix (fst b) q"
        by (auto simp: strict_prefix_def prefix_def)
    qed
    then show "prune_node (map fst ?B) (fst b) (snd b) = snd b"
      by (rule prune_id(1))
  qed
  show ?thesis
  proof (cases "?B = [] \<and> preserveInline")
    case True
    then show ?thesis by (simp add: flattenBlocksDown_def Let_def n)
  next
    case False
    then show ?thesis
      by (auto simp: flattenBlocksDown_def Let_def n b loop pr snd_B)
  qed
qed

lemma short_circuit_twice:
  assumes "preserveInline" and "getBlockNodes (normalize_list kids) = []"
  shows "flattenBlocksDown (flattenBlocksDown kids preserveInline) preserveInline
           = flattenBlocksDown kids preserveInline"
proof -
  from assms have first: "flattenBlocksDown kids preserveInline = normalize_list kids"
    by (simp add: flattenBlocksDown_def Let_def)
  from assms have "flattenBlocksDown (normalize_list kids) preserveInline = normalize_list kids"
    by (simp add: flattenBlocksDown_def Let_def normalize_list_idem)
  with first show ?thesis by simp
qed

text \<open>
  Claim C6 fails as stated. In a list item that holds a paragraph, the list is kept
  (it is not empty and no child of it is a block), and the paragraph is then moved
  out of it to the root. The first application leaves an empty list before the
  paragraph; the second application drops that list, so it does not give the same
  tree as the first.
\<close>

theorem flatten_twice_counterexample:
  "flattenBlocksDown nested_list False
     = [Element ''UL'' [] [Element ''LI'' [] []], Element ''P'' [] [Text ''a'']]
   \<and> flattenBlocksDown (flattenBlocksDown nested_list False) False
     = [Element ''P'' [] [Text ''a'']]"
  by code_simp

text \<open>
  Claim C6, amended. A second application of \<open>flattenBlocksDown\<close> gives the same
  children as the first in two cases: when the first application returned early
  (inline content is preserved and the normalized root has no block and no node
  marked not editable below it), and when the children left by the first application
  are flat, that is: every child is a collected element that the loop keeps, that
  \<open>blockifyInlineNodes\<close> does not wrap, and that has no collected node below it.
\<close>

theorem flatten_twice_same_when_flat:
  assumes "flat (flattenBlocksDown kids preserveInline)
           \<or> (preserveInline \<and> getBlockNodes (normalize_list kids) = [])"
  shows "flattenBlocksDown (flattenBlocksDown kids preserveInline) preserveInline
           = flattenBlocksDown kids preserveInline"
  using assms
proof
  assume "flat (flattenBlocksDown kids preserveInline)"
  then show ?thesis by (rule flat_fixpoint)
next
  assume "preserveInline \<and> getBlockNodes (normalize_list kids) = []"
  then show ?thesis by (simp add: short_circuit_twice)
qed

theorem flatten_twice_same_when_flat_witness:
  "flat (flattenBlocksDown nested_quote False)
   \<and> flattenBlocksDown nested_quote False = [Element ''P'' [] [Text ''a'']]
   \<and> flattenBlocksDown (flattenBlocksDown nested_quote False) False
       = flattenBlocksDown nested_quote False
   \<and> getBlockNodes (normalize_list inline_root) = []
   \<and> flattenBlocksDown inline_root True = [Text ''ab'', Element ''B'' [] [Text ''c'']]
   \<and> flattenBlocksDown (flattenBlocksDown inline_root True) True
       = flattenBlocksDown inline_root True"
proof -
  have f: "flat (flattenBlocksDown nested_quote False)" by code_simp
  have g: "getBlockNodes (normalize_list inline_root) = []" by code_simp
  have r1: "flattenBlocksDown nested_quote False = [Element ''P'' [] [Text ''a'']]" by code_simp
  have r2: "flattenBlocksDown inline_root True = [Text ''ab'', Element ''B'' [] [Text ''c'']]" by code_simp
  from f have t1: "flattenBlocksDown (flattenBlocksDown nested_quote False) False
       = flattenBlocksDown nested_quote False"
    using flatten_twice_same_when_flat [of nested_quote False] by blast
  from g have t2: "flattenBlocksDown (flattenBlocksDown inline_root True) True
       = flattenBlocksDown inline_root True"
    using flatten_twice_same_when_flat [of inline_root True] by blast
  from f g r1 r2 t1 t2 show ?thesis by blast
qed


subsection \<open>Selection persistence\<close>

lemma stack_texts_Nil: "stack_texts [] = []"
  by (simp add: stack_texts_def)

lemma stack_texts_Cons: "stack_texts ((p, nd) # st) = etexts p nd @ stack_texts st"
  by (simp add: stack_texts_def)

lemma stack_texts_append: "stack_texts (a @ b) = stack_texts a @ stack_texts b"
  by (simp add: stack_texts_def)

lemma stack_texts_kids: "stack_texts (kids_from p i ks) = etexts_list p i ks"
  by (induction ks arbitrary: i) (simp_all add: stack_texts_Nil stack_texts_Cons)

lemma walkable_kids:
  "list_all walkable ks \<Longrightarrow> \<forall>x \<in> set (kids_from p i ks). walkable (snd x)"
  by (induction ks arbitrary: i) simp_all

lemma stack_texts_push:
  "stack_texts (push_children p as ks st) = etexts p (Element n as ks) @ stack_texts st"
  by (simp add: push_children_def stack_texts_append stack_texts_kids)

lemma walkable_push:
  assumes "walkable (Element n as ks)" and "\<forall>x \<in> set st. walkable (snd x)"
  shows "\<forall>x \<in> set (push_children p as ks st). walkable (snd x)"
  using assms walkable_kids [of ks p 0] by (auto simp: push_children_def)

lemma save_walk_list:
  "\<forall>x \<in> set st. walkable (snd x) \<Longrightarrow>
   save_walk st sc so start = Inr (save_list (stack_texts st) sc so start)"
proof (induction st sc so start rule: save_walk.induct)
  case (1 sc so start)
  then show ?case by (simp add: stack_texts_Nil)
next
  case (2 p s st sc so start)
  then show ?case by (simp add: stack_texts_Cons)
next
  case (3 p n as ks st sc so start)
  from 3(2) have "\<forall>x \<in> set (push_children p as ks st). walkable (snd x)"
    using walkable_push [of n as ks st p] by simp
  from 3(1) [OF this] show ?case
    by (simp only: save_walk.simps stack_texts_push [of p as ks st n] stack_texts_Cons)
qed simp_all

lemma restore_walk_list:
  "\<forall>x \<in> set st. walkable (snd x) \<Longrightarrow>
   restore_walk st sv c fs r = Inr (restore_list (stack_texts st) sv c fs r)"
proof (induction st sv c fs r rule: restore_walk.induct)
  case (1 sv c fs r)
  then show ?case by (simp add: stack_texts_Nil)
next
  case (2 p s st sv c fs r)
  then show ?case by (simp add: stack_texts_Cons Let_def)
next
  case (3 p n as ks st sv c fs r)
  from 3(2) have "\<forall>x \<in> set (push_children p as ks st). walkable (snd x)"
    using walkable_push [of n as ks st p] by simp
  from 3(1) [OF this] show ?case
    by (simp only: restore_walk.simps stack_texts_push [of p as ks st n] stack_texts_Cons)
qed simp_all

lemma save_list_locate:
  "locate L p c = Some (a, s) \<Longrightarrow> save_list L p so c = a + so"
  by (induction L arbitrary: c) (auto split: if_splits)

lemma locate_nth:
  "locate L p c = Some (a, s) \<Longrightarrow>
   \<exists>j < length L. L ! j = (p, s) \<and> a = c + length (concat (map snd (take j L)))"
proof (induction L arbitrary: c)
  case Nil
  then show ?case by simp
next
  case (Cons x L)
  obtain q u where x: "x = (q, u)" by (cases x)
  show ?case
  proof (cases "q = p")
    case True
    with Cons.prems x have "(x # L) ! 0 = (p, s) \<and> a = c + length (concat (map snd (take 0 (x # L))))"
      by simp
    then show ?thesis by blast
  next
    case False
    with Cons.prems x have "locate L p (c + length u) = Some (a, s)" by simp
    from Cons.IH [OF this] obtain j where j: "j < length L" "L ! j = (p, s)"
      "a = c + length u + length (concat (map snd (take j L)))" by blast
    then have "Suc j < length (x # L) \<and> (x # L) ! Suc j = (p, s)
        \<and> a = c + length (concat (map snd (take (Suc j) (x # L))))"
      by (simp add: x)
    then show ?thesis by blast
  qed
qed

lemma take_nth_total:
  "j < length L \<Longrightarrow>
   length (concat (map snd (take j L))) + length (snd (L ! j)) \<le> length (concat (map snd L))"
proof -
  assume "j < length L"
  then have "L = take j L @ L ! j # drop (Suc j) L" by (rule id_take_nth_drop)
  then have "concat (map snd L) = concat (map snd (take j L @ L ! j # drop (Suc j) L))" by simp
  then have "length (concat (map snd L))
      = length (concat (map snd (take j L))) + length (snd (L ! j))
        + length (concat (map snd (drop (Suc j) L)))"
    by simp
  then show ?thesis by simp
qed

lemma bp_before_append: "bp_before (p @ a) (p @ b) = bp_before a b"
  by (induction p) simp_all

lemma parts_before_append: "parts_before (p @ a) (p @ b) = parts_before a b"
  by (induction p) simp_all

lemma parts_before_not_after: "parts_before a b \<Longrightarrow> \<not> bp_before (b @ v) (a @ u)"
  by (induction a b rule: parts_before.induct) auto

lemma bp_before_Nil: "bp_before [] xs = (xs \<noteq> [])"
  by (cases xs) simp_all

lemma setStart_origin: "setStart (collapsed_at [] 0) p i = collapsed_at p i"
proof (cases p)
  case Nil
  then show ?thesis by (cases i) (simp_all add: setStart_def collapsed_at_def before_def)
next
  case (Cons k q)
  then show ?thesis by (cases k) (simp_all add: setStart_def collapsed_at_def before_def bp_before_Nil)
qed

lemma setEnd_collapsed:
  "\<not> before q j p i \<Longrightarrow>
   setEnd (collapsed_at p i) q j
     = \<lparr>startContainer = p, startOffset = i, endContainer = q, endOffset = j\<rparr>"
  by (simp add: setEnd_def collapsed_at_def)

lemma text_editable:
  "editable_only t \<Longrightarrow> concat (map snd (etexts q t)) = text_of t"
  "list_all editable_only ks \<Longrightarrow> concat (map snd (etexts_list q i ks)) = text_of_list ks"
  by (induction q t and q i ks rule: etexts_etexts_list.induct) simp_all

lemma etexts_prefix:
  "x \<in> set (etexts q t) \<Longrightarrow> \<exists>p. fst x = q @ p"
  "x \<in> set (etexts_list q i ks) \<Longrightarrow> \<exists>k p. fst x = q @ k # p \<and> i \<le> k"
proof (induction q t and q i ks rule: etexts_etexts_list.induct)
  case (1 q n as ks)
  then show ?case by (auto split: if_splits)
next
  case (7 q i k ks)
  from 7(3) have "x \<in> set (etexts (q @ [i]) k) \<or> x \<in> set (etexts_list q (Suc i) ks)"
    by simp
  then show ?case
  proof
    assume "x \<in> set (etexts (q @ [i]) k)"
    from 7(1) [OF this] obtain p where "fst x = (q @ [i]) @ p" by blast
    then have "fst x = q @ i # p \<and> i \<le> i" by simp
    then show ?thesis by blast
  next
    assume "x \<in> set (etexts_list q (Suc i) ks)"
    from 7(2) [OF this] obtain k' p where "fst x = q @ k' # p" "Suc i \<le> k'" by blast
    then have "fst x = q @ k' # p \<and> i \<le> k'" by simp
    then show ?thesis by blast
  qed
qed simp_all

lemma etexts_sorted:
  "sorted_wrt (\<lambda>x y. parts_before (fst x) (fst y)) (etexts q t)"
  "sorted_wrt (\<lambda>x y. parts_before (fst x) (fst y)) (etexts_list q i ks)"
proof (induction q t and q i ks rule: etexts_etexts_list.induct)
  case (7 q i k ks)
  have "parts_before (fst x) (fst y)"
    if "x \<in> set (etexts (q @ [i]) k)" and "y \<in> set (etexts_list q (Suc i) ks)" for x y
  proof -
    from etexts_prefix(1) [OF that(1)] obtain p where x: "fst x = q @ i # p" by auto
    from etexts_prefix(2) [OF that(2)] obtain k' p' where y: "fst y = q @ k' # p'" "Suc i \<le> k'"
      by blast
    show ?thesis by (simp only: x y parts_before_append) (use y(2) in simp)
  qed
  with 7 show ?case by (simp add: sorted_wrt_append)
qed simp_all

lemma chars_before_nth:
  "editable_only t \<Longrightarrow> j < length (etexts q t) \<Longrightarrow>
   \<exists>p. fst (etexts q t ! j) = q @ p
     \<and> chars_before t p i
         = length (concat (map snd (take j (etexts q t)))) + min i (length (snd (etexts q t ! j)))"
  "list_all editable_only ks \<Longrightarrow> j < length (etexts_list q m ks) \<Longrightarrow>
   \<exists>k p. fst (etexts_list q m ks ! j) = q @ (m + k) # p \<and> k < length ks
     \<and> length (text_of_list (take k ks)) + chars_before (ks ! k) p i
         = length (concat (map snd (take j (etexts_list q m ks))))
           + min i (length (snd (etexts_list q m ks ! j)))"
proof (induction q t and q m ks arbitrary: j and j rule: etexts_etexts_list.induct)
  case (1 q n as ks)
  from 1(3) have ed: "map_of as ''contenteditable'' \<noteq> Some ''false''"
    by (auto split: if_splits)
  with 1(2) have all: "list_all editable_only ks" by simp
  from 1(3) ed have j: "j < length (etexts_list q 0 ks)" by simp
  from 1(1) [OF ed all j] obtain k p where
    kp: "fst (etexts_list q 0 ks ! j) = q @ k # p" "k < length ks"
      "length (text_of_list (take k ks)) + chars_before (ks ! k) p i
         = length (concat (map snd (take j (etexts_list q 0 ks))))
           + min i (length (snd (etexts_list q 0 ks ! j)))"
    by auto
  from kp ed have "fst (etexts q (Element n as ks) ! j) = q @ (k # p)
     \<and> chars_before (Element n as ks) (k # p) i
         = length (concat (map snd (take j (etexts q (Element n as ks)))))
           + min i (length (snd (etexts q (Element n as ks) ! j)))"
    by simp
  then show ?case by blast
next
  case (2 q s)
  then have "fst (etexts q (Text s) ! j) = q @ []
     \<and> chars_before (Text s) [] i
         = length (concat (map snd (take j (etexts q (Text s)))))
           + min i (length (snd (etexts q (Text s) ! j)))"
    by simp
  then show ?case by blast
next
  case (7 q m k ks)
  let ?A = "etexts (q @ [m]) k" and ?B = "etexts_list q (Suc m) ks"
  from 7(3) have ek: "editable_only k" and eks: "list_all editable_only ks" by simp_all
  show ?case
  proof (cases "j < length ?A")
    case True
    from 7(1) [OF ek True] obtain p where
      p: "fst (?A ! j) = (q @ [m]) @ p"
        "chars_before k p i = length (concat (map snd (take j ?A))) + min i (length (snd (?A ! j)))"
      by blast
    from True p have "fst (etexts_list q m (k # ks) ! j) = q @ (m + 0) # p \<and> 0 < length (k # ks)
       \<and> length (text_of_list (take 0 (k # ks))) + chars_before ((k # ks) ! 0) p i
         = length (concat (map snd (take j (etexts_list q m (k # ks)))))
           + min i (length (snd (etexts_list q m (k # ks) ! j)))"
      by (simp add: nth_append)
    then show ?thesis by blast
  next
    case False
    let ?j = "j - length ?A"
    from False 7(4) have j': "?j < length ?B" by simp
    from 7(2) [OF eks j'] obtain k' p where
      kp: "fst (?B ! ?j) = q @ (Suc m + k') # p" "k' < length ks"
        "length (text_of_list (take k' ks)) + chars_before (ks ! k') p i
           = length (concat (map snd (take ?j ?B))) + min i (length (snd (?B ! ?j)))"
      by blast
    have A: "length (concat (map snd ?A)) = length (text_of k)"
      using text_editable(1) [OF ek, of "q @ [m]"] by simp
    from False kp A have "fst (etexts_list q m (k # ks) ! j) = q @ (m + Suc k') # p
       \<and> Suc k' < length (k # ks)
       \<and> length (text_of_list (take (Suc k') (k # ks))) + chars_before ((k # ks) ! Suc k') p i
         = length (concat (map snd (take j (etexts_list q m (k # ks)))))
           + min i (length (snd (etexts_list q m (k # ks) ! j)))"
      by (simp add: nth_append)
    then show ?thesis by blast
  qed
qed simp_all

lemma find_start_found: "find_start sv p c n True r = (True, r)"
  by (simp add: find_start_def)

lemma restore_list_end:
  "c < sv_end sv \<Longrightarrow> sv_end sv \<le> c + length (concat (map snd L)) \<Longrightarrow>
   \<exists>j i. j < length L
     \<and> c + length (concat (map snd (take j L))) + i = sv_end sv
     \<and> i \<le> length (snd (L ! j))
     \<and> restore_list L sv c True r
         = (c + length (concat (map snd (take (Suc j) L))), True, setEnd r (fst (L ! j)) i)"
proof (induction L arbitrary: c)
  case Nil
  then show ?case by simp
next
  case (Cons x L)
  obtain p s where x: "x = (p, s)" by (cases x)
  show ?case
  proof (cases "sv_end sv \<le> c + length s")
    case True
    with Cons.prems have "0 < length (x # L)
       \<and> c + length (concat (map snd (take 0 (x # L)))) + (sv_end sv - c) = sv_end sv
       \<and> sv_end sv - c \<le> length (snd ((x # L) ! 0))
       \<and> restore_list (x # L) sv c True r
           = (c + length (concat (map snd (take (Suc 0) (x # L)))), True,
              setEnd r (fst ((x # L) ! 0)) (sv_end sv - c))"
      by (simp add: x find_start_found Let_def)
    then show ?thesis by blast
  next
    case False
    then have lt: "c + length s < sv_end sv" by simp
    from Cons.prems have le: "sv_end sv \<le> (c + length s) + length (concat (map snd L))"
      by (simp add: x)
    from Cons.IH [OF lt le] obtain j i where
      ji: "j < length L" "c + length s + length (concat (map snd (take j L))) + i = sv_end sv"
        "i \<le> length (snd (L ! j))"
        "restore_list L sv (c + length s) True r
           = (c + length s + length (concat (map snd (take (Suc j) L))), True, setEnd r (fst (L ! j)) i)"
      by blast
    from False ji have "Suc j < length (x # L)
       \<and> c + length (concat (map snd (take (Suc j) (x # L)))) + i = sv_end sv
       \<and> i \<le> length (snd ((x # L) ! Suc j))
       \<and> restore_list (x # L) sv c True r
           = (c + length (concat (map snd (take (Suc (Suc j)) (x # L)))), True,
              setEnd r (fst ((x # L) ! Suc j)) i)"
      by (simp add: x find_start_found Let_def)
    then show ?thesis by blast
  qed
qed

lemma restore_list_both:
  "c \<le> sv_start sv \<Longrightarrow> sv_start sv \<le> sv_end sv
   \<Longrightarrow> sv_end sv \<le> c + length (concat (map snd L)) \<Longrightarrow> L \<noteq> [] \<Longrightarrow>
   \<exists>j i j' i'. j \<le> j' \<and> j' < length L
     \<and> c + length (concat (map snd (take j L))) + i = sv_start sv
     \<and> i \<le> length (snd (L ! j))
     \<and> c + length (concat (map snd (take j' L))) + i' = sv_end sv
     \<and> i' \<le> length (snd (L ! j'))
     \<and> snd (snd (restore_list L sv c False r))
         = setEnd (setStart r (fst (L ! j)) i) (fst (L ! j')) i'
     \<and> fst (snd (restore_list L sv c False r))"
proof (induction L arbitrary: c)
  case Nil
  then show ?case by simp
next
  case (Cons x L)
  obtain p s where x: "x = (p, s)" by (cases x)
  let ?S = "sv_start sv" and ?E = "sv_end sv"
  let ?n = "c + length s"
  consider (here) "?S < ?n" "?E \<le> ?n" | (later) "?S < ?n" "?n < ?E"
    | (edge) "?n \<le> ?S" "?n = ?E" | (skip) "?n \<le> ?S" "?n \<noteq> ?E"
    by linarith
  then show ?case
  proof cases
    case here
    with Cons.prems have "(0::nat) \<le> 0 \<and> 0 < length (x # L)
       \<and> c + length (concat (map snd (take 0 (x # L)))) + (?S - c) = ?S
       \<and> ?S - c \<le> length (snd ((x # L) ! 0))
       \<and> c + length (concat (map snd (take 0 (x # L)))) + (?E - c) = ?E
       \<and> ?E - c \<le> length (snd ((x # L) ! 0))
       \<and> snd (snd (restore_list (x # L) sv c False r))
           = setEnd (setStart r (fst ((x # L) ! 0)) (?S - c)) (fst ((x # L) ! 0)) (?E - c)
       \<and> fst (snd (restore_list (x # L) sv c False r))"
      by (auto simp: x find_start_def Let_def)
    then show ?thesis by blast
  next
    case later
    from Cons.prems have le: "?E \<le> ?n + length (concat (map snd L))" by (simp add: x)
    from restore_list_end [OF later(2) le, of "setStart r p (?S - c)"] obtain j i where
      ji: "j < length L" "?n + length (concat (map snd (take j L))) + i = ?E"
        "i \<le> length (snd (L ! j))"
        "restore_list L sv ?n True (setStart r p (?S - c))
           = (?n + length (concat (map snd (take (Suc j) L))), True,
              setEnd (setStart r p (?S - c)) (fst (L ! j)) i)"
      by blast
    from later Cons.prems ji have "0 \<le> Suc j \<and> Suc j < length (x # L)
       \<and> c + length (concat (map snd (take 0 (x # L)))) + (?S - c) = ?S
       \<and> ?S - c \<le> length (snd ((x # L) ! 0))
       \<and> c + length (concat (map snd (take (Suc j) (x # L)))) + i = ?E
       \<and> i \<le> length (snd ((x # L) ! Suc j))
       \<and> snd (snd (restore_list (x # L) sv c False r))
           = setEnd (setStart r (fst ((x # L) ! 0)) (?S - c)) (fst ((x # L) ! Suc j)) i
       \<and> fst (snd (restore_list (x # L) sv c False r))"
      by (auto simp: x find_start_def Let_def)
    then show ?thesis by blast
  next
    case edge
    with Cons.prems have "(0::nat) \<le> 0 \<and> 0 < length (x # L)
       \<and> c + length (concat (map snd (take 0 (x # L)))) + (?E - c) = ?S
       \<and> ?E - c \<le> length (snd ((x # L) ! 0))
       \<and> c + length (concat (map snd (take 0 (x # L)))) + (?E - c) = ?E
       \<and> ?E - c \<le> length (snd ((x # L) ! 0))
       \<and> snd (snd (restore_list (x # L) sv c False r))
           = setEnd (setStart r (fst ((x # L) ! 0)) (?E - c)) (fst ((x # L) ! 0)) (?E - c)
       \<and> fst (snd (restore_list (x # L) sv c False r))"
      by (auto simp: x find_start_def Let_def)
    then show ?thesis by blast
  next
    case skip
    with Cons.prems have lt: "?n < ?E" by simp
    from Cons.prems have le: "?E \<le> ?n + length (concat (map snd L))" by (simp add: x)
    with lt have ne: "L \<noteq> []" by auto
    from Cons.IH [OF skip(1) Cons.prems(2) le ne] obtain j i j' i' where
      ji: "j \<le> j'" "j' < length L"
        "?n + length (concat (map snd (take j L))) + i = ?S" "i \<le> length (snd (L ! j))"
        "?n + length (concat (map snd (take j' L))) + i' = ?E" "i' \<le> length (snd (L ! j'))"
        "snd (snd (restore_list L sv ?n False r)) = setEnd (setStart r (fst (L ! j)) i) (fst (L ! j')) i'"
        "fst (snd (restore_list L sv ?n False r))"
      by blast
    from skip lt ji have "Suc j \<le> Suc j' \<and> Suc j' < length (x # L)
       \<and> c + length (concat (map snd (take (Suc j) (x # L)))) + i = ?S
       \<and> i \<le> length (snd ((x # L) ! Suc j))
       \<and> c + length (concat (map snd (take (Suc j') (x # L)))) + i' = ?E
       \<and> i' \<le> length (snd ((x # L) ! Suc j'))
       \<and> snd (snd (restore_list (x # L) sv c False r))
           = setEnd (setStart r (fst ((x # L) ! Suc j)) i) (fst ((x # L) ! Suc j')) i'
       \<and> fst (snd (restore_list (x # L) sv c False r))"
      by (auto simp: x find_start_def Let_def)
    then show ?thesis by blast
  qed
qed

lemma stack_texts_single: "stack_texts [([], t)] = etexts [] t"
  by (simp add: stack_texts_def)

lemma chars_before_text:
  assumes "editable_only t" and "j < length (etexts [] t)" and "i \<le> length (snd (etexts [] t ! j))"
  shows "chars_before t (fst (etexts [] t ! j)) i
           = length (concat (map snd (take j (etexts [] t)))) + i"
proof -
  from chars_before_nth(1) [OF assms(1,2), of i] obtain p where
    "fst (etexts [] t ! j) = [] @ p"
    "chars_before t p i
       = length (concat (map snd (take j (etexts [] t)))) + min i (length (snd (etexts [] t ! j)))"
    by blast
  with assms(3) show ?thesis by (simp add: min_def)
qed

lemma offset_chars:
  assumes "editable_only t" and "editable_offset t p i = Some S"
  shows "chars_before t p i = S \<and> S \<le> length (editable_text t)
       \<and> save_list (etexts [] t) p i 0 = S"
proof -
  let ?L = "etexts [] t"
  from assms(2) obtain c s where loc: "locate ?L p 0 = Some (c, s)" and i: "i \<le> length s"
    and S: "S = c + i"
    by (auto simp: editable_offset_def split: option.splits prod.splits if_splits)
  from locate_nth [OF loc] obtain j where j: "j < length ?L" "?L ! j = (p, s)"
    "c = length (concat (map snd (take j ?L)))" by auto
  from chars_before_text [OF assms(1) j(1), of i] j i S have cb: "chars_before t p i = S"
    by simp
  from take_nth_total [OF j(1)] j i S have le: "S \<le> length (editable_text t)"
    by (simp add: editable_text_def)
  from save_list_locate [OF loc, of i] S have "save_list ?L p i 0 = S" by simp
  with cb le show ?thesis by simp
qed

lemma saveSelection_offsets:
  assumes "walkable t" and "editable_only t"
    and "editable_offset t (startContainer rng) (startOffset rng) = Some S"
    and "editable_offset t (endContainer rng) (endOffset rng) = Some E"
    and "S \<le> E"
  shows "saveSelection t (Some rng)
           = Inr (Some \<lparr>sv_endContainer = endContainer rng, sv_start = S, sv_end = E\<rparr>)"
proof -
  from offset_chars [OF assms(2,3)] have s: "chars_before t (startContainer rng) (startOffset rng) = S"
    "save_list (etexts [] t) (startContainer rng) (startOffset rng) 0 = S" by simp_all
  from offset_chars [OF assms(2,4)] have e: "chars_before t (endContainer rng) (endOffset rng) = E"
    "E \<le> length (editable_text t)" by simp_all
  have same_text: "text_of t = editable_text t"
    using text_editable(1) [OF assms(2), of "[]"] by (simp add: editable_text_def)
  from assms(5) e(2) have len: "length (range_toString t rng) = E - S"
    by (simp add: range_toString_def Let_def s(1) e(1) same_text)
  have "save_walk [([], t)] (startContainer rng) (startOffset rng) 0 = Inr S"
    using save_walk_list [of "[([], t)]" "startContainer rng" "startOffset rng" 0] assms(1)
    by (simp add: stack_texts_single s(2))
  with len assms(5) show ?thesis by (simp add: saveSelection_def)
qed

lemma range_toString_no_text: "text_of t = [] \<Longrightarrow> range_toString t r = []"
  by (simp add: range_toString_def Let_def)

lemma restored_text_slice:
  assumes "walkable t" and "editable_only t" and "S \<le> E" and "E \<le> length (editable_text t)"
  shows "restored_text t endNow (Some \<lparr>sv_endContainer = ec, sv_start = S, sv_end = E\<rparr>) cur
           = Some (take (E - S) (drop S (editable_text t)))"
proof -
  let ?L = "etexts [] t"
  let ?sv = "\<lparr>sv_endContainer = ec, sv_start = S, sv_end = E\<rparr>"
  let ?r0 = "collapsed_at [] 0"
  have same_text: "text_of t = editable_text t"
    using text_editable(1) [OF assms(2), of "[]"] by (simp add: editable_text_def)
  have walk: "restore_walk [([], t)] ?sv 0 False ?r0 = Inr (restore_list ?L ?sv 0 False ?r0)"
    using restore_walk_list [of "[([], t)]" ?sv 0 False ?r0] assms(1)
    by (simp add: stack_texts_single)
  show ?thesis
  proof (cases "?L = []")
    case True
    then have "editable_text t = []" by (simp add: editable_text_def)
    with same_text have none: "text_of t = []" by simp
    have "selection_toString t sel = []" for sel
      by (cases sel) (simp_all add: selection_toString_def range_toString_no_text [OF none])
    then have "restored_text t endNow (Some ?sv) cur = Some []"
      by (simp add: restored_text_def restoreSelection_def walk True
               split: option.splits sum.splits)
    with \<open>editable_text t = []\<close> show ?thesis by simp
  next
    case False
    from assms(3,4) have pre: "0 \<le> sv_start ?sv" "sv_start ?sv \<le> sv_end ?sv"
      "sv_end ?sv \<le> 0 + length (concat (map snd ?L))"
      by (simp_all add: editable_text_def)
    from restore_list_both [OF pre False, of ?r0] obtain j i j' i' where
      ji: "j \<le> j'" "j' < length ?L"
        "length (concat (map snd (take j ?L))) + i = S" "i \<le> length (snd (?L ! j))"
        "length (concat (map snd (take j' ?L))) + i' = E" "i' \<le> length (snd (?L ! j'))"
        "snd (snd (restore_list ?L ?sv 0 False ?r0))
           = setEnd (setStart ?r0 (fst (?L ! j)) i) (fst (?L ! j')) i'"
        "fst (snd (restore_list ?L ?sv 0 False ?r0))"
      by auto
    let ?p = "fst (?L ! j)" and ?q = "fst (?L ! j')"
    have order: "\<not> before ?q i' ?p i"
    proof (cases "j = j'")
      case True
      with ji(3,5) assms(3) have "i \<le> i'" by simp
      with True show ?thesis by (simp add: before_def bp_before_append)
    next
      case False
      with ji(1) have "j < j'" by simp
      from sorted_wrt_nth_less [OF etexts_sorted(1) [of "[]" t] this ji(2)]
      have "parts_before ?p ?q" .
      then show ?thesis unfolding before_def by (rule parts_before_not_after)
    qed
    have rng: "snd (snd (restore_list ?L ?sv 0 False ?r0))
        = \<lparr>startContainer = ?p, startOffset = i, endContainer = ?q, endOffset = i'\<rparr>"
      by (simp only: ji(7) setStart_origin setEnd_collapsed [OF order])
    from ji(1,2) have j: "j < length ?L" by simp
    have a: "chars_before t ?p i = S"
      using chars_before_text [OF assms(2) j ji(4)] ji(3) by simp
    have b: "chars_before t ?q i' = E"
      using chars_before_text [OF assms(2) ji(2) ji(6)] ji(5) by simp
    obtain c fe r where res: "restore_list ?L ?sv 0 False ?r0 = (c, fe, r)"
      by (cases "restore_list ?L ?sv 0 False ?r0") auto
    with ji(8) rng have fe: "fe" and r: "r = \<lparr>startContainer = ?p, startOffset = i, endContainer = ?q, endOffset = i'\<rparr>"
      by simp_all
    have "range_toString t r = take (E - S) (drop S (editable_text t))"
      by (simp add: range_toString_def Let_def r a b same_text)
    then show ?thesis
      by (simp add: restored_text_def restoreSelection_def walk res fe selection_toString_def)
  qed
qed

text \<open>
  Where no text lies inside a subtree marked not editable and the walk meets only
  elements and text nodes, the two functions do what they are for. Let the container
  have the editable text \<open>T\<close>, and let the selected range start and end in text nodes
  that the walk reaches, at the offsets \<open>S \<le> E\<close> of \<open>T\<close>. Then \<open>saveSelection\<close> returns
  \<open>S\<close> and \<open>E\<close>, and \<open>restoreSelection\<close> on a container that was rewrapped but has the
  same editable text selects \<open>T.slice(S, E)\<close>.
\<close>

theorem selection_restored_after_rewrap:
  assumes "walkable t" and "walkable t'" and "editable_only t" and "editable_only t'"
    and "editable_text t' = editable_text t"
    and "editable_offset t (startContainer rng) (startOffset rng) = Some S"
    and "editable_offset t (endContainer rng) (endOffset rng) = Some E"
    and "S \<le> E"
  shows "E \<le> length (editable_text t)
       \<and> saveSelection t (Some rng)
           = Inr (Some \<lparr>sv_endContainer = endContainer rng, sv_start = S, sv_end = E\<rparr>)
       \<and> restored_text t' endNow
             (Some \<lparr>sv_endContainer = endContainer rng, sv_start = S, sv_end = E\<rparr>) cur
           = Some (take (E - S) (drop S (editable_text t)))"
proof -
  from offset_chars [OF assms(3,7)] have le: "E \<le> length (editable_text t)" by simp
  then have le': "E \<le> length (editable_text t')" by (simp add: assms(5))
  from restored_text_slice [OF assms(2,4,8) le', of endNow "endContainer rng" cur] assms(5)
  have "restored_text t' endNow
             (Some \<lparr>sv_endContainer = endContainer rng, sv_start = S, sv_end = E\<rparr>) cur
           = Some (take (E - S) (drop S (editable_text t)))"
    by simp
  with le saveSelection_offsets [OF assms(1,3,6,7,8)] show ?thesis by simp
qed

theorem selection_restored_after_rewrap_witness:
  "walkable plain_root \<and> walkable rewrapped_root
   \<and> editable_only plain_root \<and> editable_only rewrapped_root
   \<and> editable_text rewrapped_root = editable_text plain_root
   \<and> editable_text plain_root = ''abcdef''
   \<and> editable_offset plain_root [0, 0] 1 = Some 1
   \<and> editable_offset plain_root [0, 1, 0] 1 = Some 3
   \<and> saveSelection plain_root
        (Some \<lparr>startContainer = [0, 0], startOffset = 1, endContainer = [0, 1, 0], endOffset = 1\<rparr>)
       = Inr (Some \<lparr>sv_endContainer = [0, 1, 0], sv_start = 1, sv_end = 3\<rparr>)
   \<and> restored_text rewrapped_root None
        (Some \<lparr>sv_endContainer = [0, 1, 0], sv_start = 1, sv_end = 3\<rparr>) None
       = Some ''bc''"
proof -
  let ?rng = "\<lparr>startContainer = [0, 0], startOffset = 1, endContainer = [0, 1, 0], endOffset = 1::nat\<rparr>"
  have h1: "walkable plain_root" by code_simp
  have h2: "walkable rewrapped_root" by code_simp
  have h3: "editable_only plain_root" by code_simp
  have h4: "editable_only rewrapped_root" by code_simp
  have t: "editable_text plain_root = ''abcdef''" by code_simp
  have t': "editable_text rewrapped_root = ''abcdef''" by code_simp
  have h5: "editable_text rewrapped_root = editable_text plain_root" by (simp only: t t')
  have h6: "editable_offset plain_root (startContainer ?rng) (startOffset ?rng) = Some 1" by code_simp
  have h7: "editable_offset plain_root (endContainer ?rng) (endOffset ?rng) = Some 3" by code_simp
  have h8: "(1::nat) \<le> 3" by simp
  from selection_restored_after_rewrap [OF h1 h2 h3 h4 h5 h6 h7 h8, of None None]
  have "saveSelection plain_root (Some ?rng)
           = Inr (Some \<lparr>sv_endContainer = [0, 1, 0], sv_start = 1, sv_end = 3\<rparr>)
       \<and> restored_text rewrapped_root None
             (Some \<lparr>sv_endContainer = [0, 1, 0], sv_start = 1, sv_end = 3\<rparr>) None
           = Some ''bc''"
    by (simp add: t)
  with h1 h2 h3 h4 h5 t h6 h7 show ?thesis by simp
qed

text \<open>
  Claim C1 does not hold on the code. \<open>saveSelection\<close> leaves the text inside subtrees
  marked not editable out of \<open>start\<close>, since its walk does not enter them, but it takes
  \<open>end\<close> as \<open>start + range.toString().length\<close>, and the string of a range has that text
  in it. Take the container \<open>ab<span contenteditable="false">X</span>cd\<close> and the
  selection from offset 1 of \<open>ab\<close> to offset 0 of \<open>cd\<close>. The editable text is \<open>abcd\<close>
  and the selection has the offsets 1 and 2 in it, so the claim gives \<open>b\<close>. The saved
  end is 3; \<open>restoreSelection\<close> on the unchanged container puts the end at offset 1 of
  \<open>cd\<close>, one character after the selected end, and the range reads \<open>bXc\<close>.
\<close>

theorem hidden_text_shifts_restored_end:
  "editable_text hidden_text_root = ''abcd''
   \<and> editable_offset hidden_text_root [0] 1 = Some 1
   \<and> editable_offset hidden_text_root [2] 0 = Some 2
   \<and> take (2 - 1) (drop 1 (editable_text hidden_text_root)) = ''b''
   \<and> saveSelection hidden_text_root
        (Some \<lparr>startContainer = [0], startOffset = 1, endContainer = [2], endOffset = 0\<rparr>)
       = Inr (Some \<lparr>sv_endContainer = [2], sv_start = 1, sv_end = 3\<rparr>)
   \<and> restoreSelection hidden_text_root (Some [2])
        (Some \<lparr>sv_endContainer = [2], sv_start = 1, sv_end = 3\<rparr>) None
       = Inr (Some \<lparr>startContainer = [0], startOffset = 1, endContainer = [2], endOffset = 1\<rparr>)
   \<and> restored_text hidden_text_root (Some [2])
        (Some \<lparr>sv_endContainer = [2], sv_start = 1, sv_end = 3\<rparr>) None
       = Some ''bXc''"
  by code_simp

end
